theory Spec2Isabelle
  imports Complex_Main
begin

section \<open>Strings as Python sees them\<close>

text \<open>
  A Python \<open>str\<close> is a sequence of code points. The model uses \<open>string\<close>, so a
  character is a code point below 256 (ASCII and Latin-1). The three library operations
  the critic relies on are written out for that range: \<open>str.strip\<close> (which removes
  the characters \<open>str.isspace\<close> accepts), \<open>str.split\<close> on a one-character
  separator, and \<open>str.lower\<close>.
\<close>

definition nl :: char where
  "nl = CHR 0x0A"

definition isspace :: "char \<Rightarrow> bool" where
  "isspace c = (of_char c \<in> {9, 10, 11, 12, 13, 28, 29, 30, 31, 32, 133, 160 :: nat})"

definition lstrip :: "string \<Rightarrow> string" where
  "lstrip s = dropWhile isspace s"

definition rstrip :: "string \<Rightarrow> string" where
  "rstrip s = rev (dropWhile isspace (rev s))"

definition strip :: "string \<Rightarrow> string" where
  "strip s = rstrip (lstrip s)"

text \<open>
  \<open>s.split(sep)\<close>: the pieces between the separators, in order; never the empty list
  (\<open>''.split('\n')\<close> is \<open>['']\<close>).
\<close>

fun split_str :: "char \<Rightarrow> string \<Rightarrow> string list" where
  "split_str sep [] = [[]]"
| "split_str sep (c # cs) =
     (if c = sep then [] # split_str sep cs
      else (case split_str sep cs of
              [] \<Rightarrow> [[c]]
            | l # ls \<Rightarrow> (c # l) # ls))"

definition lower_char :: "char \<Rightarrow> char" where
  "lower_char c =
     (let n = of_char c :: nat in
      if (65 \<le> n \<and> n \<le> 90) \<or> (192 \<le> n \<and> n \<le> 222 \<and> n \<noteq> 215)
      then char_of (n + 32) else c)"

definition lower :: "string \<Rightarrow> string" where
  "lower s = map lower_char s"

section \<open>Configuration: prompts and the model table\<close>

definition CRITIC_SYSTEM_PROMPT :: string where
  "CRITIC_SYSTEM_PROMPT =
     ''You are a critic agent. Your job is to check if a proposed trading strategy matches the user's original request.\<newline>''
   @ ''\<newline>''
   @ ''## Your Task\<newline>''
   @ ''1. Analyze whether the strategy correctly and fully addresses the user request.\<newline>''
   @ ''2. If it does, explain briefly why.\<newline>''
   @ ''3. If it does not, point out the specific gaps, mistakes, or mismatches.\<newline>''
   @ ''4. Be strict: even small missing requirements should be flagged.\<newline>''
   @ ''\<newline>''
   @ ''CRITICAL: Provide your reasoning first, then end your response with ONLY ''
   @ [CHR 0x22] @ ''Yes'' @ [CHR 0x22] @ '' or '' @ [CHR 0x22] @ ''No'' @ [CHR 0x22]
   @ '' on the last line. DO NOT use JSON format.''"

text \<open>
  \<open>CRITIC_PROMPT.format(prompt=..., strategy_output=..., code=...)\<close>: the template
  with its three fields replaced. \<open>str.format\<close> inserts the values as they are; braces
  inside a value are not read again.
\<close>

definition CRITIC_PROMPT_format :: "string \<Rightarrow> string \<Rightarrow> string \<Rightarrow> string" where
  "CRITIC_PROMPT_format prompt strategy_output code =
     ''## User Request (Prompt)\<newline>'' @ prompt @ ''\<newline>''
   @ ''\<newline>''
   @ ''## Generated Strategy\<newline>'' @ strategy_output @ ''\<newline>''
   @ ''\<newline>''
   @ ''## Code\<newline>'' @ code @ ''\<newline>''"

text \<open>The dict literal, in source order; \<open>.get\<close> is \<open>map_of\<close>.\<close>

definition CRITIC_MODEL_LIST :: "(string \<times> string) list" where
  "CRITIC_MODEL_LIST =
     [(''gemini'', ''google/gemini-2.5-pro''),
      (''openai'', ''openai/gpt-4.1''),
      (''deepseek'', ''deepseek/deepseek-chat-v3.1'')]"

section \<open>The transport and \<open>generate_critic\<close>\<close>

text \<open>
  One call of \<open>client.chat.completions.create\<close> with its keyword arguments.
\<close>

record message =
  msg_role :: string
  msg_content :: string

record request =
  req_model :: string
  req_messages :: "message list"
  req_max_completion_tokens :: int
  req_temperature :: rat

text \<open>
  An exception, as far as the handler of \<open>generate_critic\<close> can tell exceptions apart:
  whether it is an instance of \<open>Exception\<close> (what \<open>except Exception\<close> catches;
  \<open>KeyboardInterrupt\<close> and \<open>SystemExit\<close> are not), and what \<open>str(e)\<close> gives,
  \<open>None\<close> when \<open>__str__\<close> itself raises.
\<close>

datatype exn = Exn (is_Exception: bool) (str_of: "string option")

text \<open>
  What can leave \<open>generate_critic\<close> or \<open>main\<close> as an exception: an exception of the
  transport that the handler does not catch, the failure to format a caught exception in
  the handler's f-string, and the \<open>AttributeError\<close> of calling \<open>.strip()\<close> on
  \<open>None\<close>.
\<close>

datatype escape = Propagated exn | Str_raised exn | AttributeError

text \<open>
  The client is outside the repository. It is a parameter: given a request and the state
  of the outside world, the body of the \<open>try\<close> block either raises (\<open>Inl\<close>) or
  yields \<open>response.choices[0].message.content\<close> (\<open>Inr\<close>), which is a string or
  \<open>None\<close>, and leaves a new world state. The program state carries that world and
  the requests sent so far, oldest first. Progress text written to the terminal is not part
  of the state.
\<close>

type_synonym 'w client = "request \<Rightarrow> 'w \<Rightarrow> (exn + string option) \<times> 'w"

record 'w state =
  world :: 'w
  sent :: "request list"

definition create ::
  "'w client \<Rightarrow> request \<Rightarrow> 'w state \<Rightarrow> (exn + string option) \<times> 'w state" where
  "create client req st =
     (case client req (world st) of
        (r, w') \<Rightarrow> (r, \<lparr>world = w', sent = sent st @ [req]\<rparr>))"

definition unknown_model_msg :: "string \<Rightarrow> string" where
  "unknown_model_msg model_choice = ''Error: Unknown model '' @ [CHR 0x27] @ model_choice @ [CHR 0x27]"

definition error_msg :: "string \<Rightarrow> string \<Rightarrow> string" where
  "error_msg model_choice e = ''Error during API call to '' @ model_choice @ '': '' @ e"

definition critic_request :: "string \<Rightarrow> string \<Rightarrow> string \<Rightarrow> string \<Rightarrow> string \<Rightarrow> request" where
  "critic_request model model_choice user_prompt strategy_output code =
     \<lparr>req_model = model,
      req_messages =
        [\<lparr>msg_role = ''system'', msg_content = CRITIC_SYSTEM_PROMPT\<rparr>,
         \<lparr>msg_role = ''user'',
          msg_content = CRITIC_PROMPT_format user_prompt strategy_output code\<rparr>],
      req_max_completion_tokens = (if model_choice \<noteq> ''openai'' then 2000 else 10000),
      req_temperature = 3 / 10\<rparr>"

text \<open>
  \<open>generate_critic\<close> returns the pair \<open>(critique, model)\<close>, or lets an exception
  escape (\<open>Inl\<close>). \<open>if not model\<close> holds for a missing key and for an empty value.
  The \<open>try\<close> block is the call of \<open>create\<close>. Its \<open>except Exception as e\<close>
  branch takes the exceptions that are instances of \<open>Exception\<close> and formats
  \<open>e\<close> into the error text; any other exception propagates. The critique of an
  answered call is the content as it came, \<open>None\<close> included.
\<close>

definition generate_critic ::
  "'w client \<Rightarrow> string \<Rightarrow> string \<Rightarrow> string \<Rightarrow> string \<Rightarrow> 'w state
     \<Rightarrow> (escape + string option \<times> string) \<times> 'w state" where
  "generate_critic client model_choice user_prompt strategy_output code st =
     (case map_of CRITIC_MODEL_LIST (lower model_choice) of
        None \<Rightarrow> (Inr (Some (unknown_model_msg model_choice), model_choice), st)
      | Some model \<Rightarrow>
          if model = [] then (Inr (Some (unknown_model_msg model_choice), model_choice), st)
          else
            (case create client
                    (critic_request model model_choice user_prompt strategy_output code) st of
               (Inr critique, st') \<Rightarrow> (Inr (critique, model), st')
             | (Inl e, st') \<Rightarrow>
                 if is_Exception e then
                   (case str_of e of
                      Some description \<Rightarrow>
                        (Inr (Some (error_msg model_choice description), model), st')
                    | None \<Rightarrow> (Inl (Str_raised e), st'))
                 else (Inl (Propagated e), st')))"

section \<open>Verdict extraction and consensus in \<open>main\<close>\<close>

text \<open>
  \<open>format_critique_output\<close> and the summary loop of \<open>main\<close> both take the verdict
  from the last line of the stripped critique. They differ only in the default used for
  an empty list of lines.
\<close>

definition format_verdict :: "string \<Rightarrow> string" where
  "format_verdict critique =
     (let lines = split_str nl (strip critique)
      in if lines \<noteq> [] then strip (last lines) else ''Unknown'')"

definition summary_verdict :: "string \<Rightarrow> string" where
  "summary_verdict critique =
     (let lines = split_str nl (strip critique)
      in if lines \<noteq> [] then strip (last lines) else ''Error'')"

text \<open>\<open>sep.join(xs)\<close>.\<close>

fun join :: "string \<Rightarrow> string list \<Rightarrow> string" where
  "join sep [] = []"
| "join sep [x] = x"
| "join sep (x # y # ys) = x @ sep @ join sep (y # ys)"

text \<open>
  \<open>format_critique_output\<close> only prints; its value here is the list of the lines it
  prints. Its first statement calls \<open>critique.strip()\<close>, which raises when the critique
  is \<open>None\<close>. The verdict it shows is \<open>format_verdict\<close>, and the reasoning is every
  line but the last.
\<close>

definition format_critique_output :: "string option \<Rightarrow> string \<Rightarrow> escape + string list" where
  "format_critique_output critique model =
     (case critique of
        None \<Rightarrow> Inl AttributeError
      | Some text \<Rightarrow>
          (let lines = split_str nl (strip text);
               verdict = format_verdict text;
               verdict_color =
                 (if lower verdict = ''yes'' then [CHR 0x1B] @ ''[92m'' else [CHR 0x1B] @ ''[91m'');
               reset_color = [CHR 0x1B] @ ''[0m''
           in Inr [''Model: '' @ model,
                   ''Verdict: '' @ verdict_color @ verdict @ reset_color,
                   [nl] @ ''Reasoning:'',
                   replicate 80 CHR ''-'',
                   join [nl] (butlast lines),
                   replicate 80 CHR ''-'']))"

text \<open>
  The loop over \<open>args.models\<close>: one call of \<open>generate_critic\<close> per entry, the
  triple \<open>(critique, model, model_choice)\<close> appended to \<open>results\<close>, then the call
  of \<open>format_critique_output\<close>. Neither call is inside a \<open>try\<close>: an exception
  that leaves one of them ends the loop and the program.
\<close>

type_synonym result = "string option \<times> string \<times> string"

fun collect_critiques ::
  "'w client \<Rightarrow> string list \<Rightarrow> string \<Rightarrow> string \<Rightarrow> string \<Rightarrow> result list \<Rightarrow> 'w state
     \<Rightarrow> (escape + result list) \<times> 'w state" where
  "collect_critiques client [] prompt strategy_output code results st = (Inr results, st)"
| "collect_critiques client (model_choice # rest) prompt strategy_output code results st =
     (case generate_critic client model_choice prompt strategy_output code st of
        (Inl x, st') \<Rightarrow> (Inl x, st')
      | (Inr (critique, model), st') \<Rightarrow>
          (case format_critique_output critique model of
             Inl x \<Rightarrow> (Inl x, st')
           | Inr printed \<Rightarrow>
               collect_critiques client rest prompt strategy_output code
                 (results @ [(critique, model, model_choice)]) st'))"

text \<open>
  The summary loop: for each result, in order, the verdict string is appended to
  \<open>verdicts\<close> and a row is printed that holds the judge name (shown in upper case),
  the model and the verdict.
\<close>

type_synonym row = "string \<times> string \<times> string"

fun summary_loop ::
  "result list \<Rightarrow> string list \<Rightarrow> row list \<Rightarrow> escape + string list \<times> row list" where
  "summary_loop [] verdicts rows = Inr (verdicts, rows)"
| "summary_loop ((critique, model, model_choice) # rest) verdicts rows =
     (case critique of
        None \<Rightarrow> Inl AttributeError
      | Some text \<Rightarrow>
          summary_loop rest (verdicts @ [summary_verdict text])
            (rows @ [(model_choice, model, summary_verdict text)]))"

definition yes_count :: "string list \<Rightarrow> nat" where
  "yes_count verdicts = sum_list (map (\<lambda>v. 1) (filter (\<lambda>v. lower v = ''yes'') verdicts))"

definition no_count :: "string list \<Rightarrow> nat" where
  "no_count verdicts = sum_list (map (\<lambda>v. 1) (filter (\<lambda>v. lower v = ''no'') verdicts))"

text \<open>The three branches of the final \<open>if\<close>/\<open>elif\<close>/\<open>else\<close>, named by what they print.\<close>

datatype classification = UnanimousApprove | UnanimousReject | Mixed

definition consensus :: "string list \<Rightarrow> classification" where
  "consensus verdicts =
     (if yes_count verdicts = length verdicts then UnanimousApprove
      else if no_count verdicts = length verdicts then UnanimousReject
      else Mixed)"

text \<open>
  A verdict string counts as an approval when its lower-cased form is \<open>yes\<close>, as a
  rejection when it is \<open>no\<close>; every other string is in neither count.
\<close>

datatype verdict = Approve | Reject | Unknown

definition verdict_class :: "string \<Rightarrow> verdict" where
  "verdict_class v =
     (if lower v = ''yes'' then Approve
      else if lower v = ''no'' then Reject
      else Unknown)"

text \<open>
  The run: collect, extract, count, classify. It ends in a report, or in the exception
  that ended it.
\<close>

record 'w report =
  rep_results :: "result list"
  rep_verdicts :: "string list"
  rep_rows :: "row list"
  rep_yes :: nat
  rep_no :: nat
  rep_total :: nat
  rep_class :: classification
  rep_state :: "'w state"

definition run ::
  "'w client \<Rightarrow> string list \<Rightarrow> string \<Rightarrow> string \<Rightarrow> string \<Rightarrow> 'w state
     \<Rightarrow> escape + 'w report" where
  "run client models prompt strategy_output code st =
     (case collect_critiques client models prompt strategy_output code [] st of
        (Inl x, st') \<Rightarrow> Inl x
      | (Inr results, st') \<Rightarrow>
          (case summary_loop results [] [] of
             Inl x \<Rightarrow> Inl x
           | Inr (verdicts, rows) \<Rightarrow>
               Inr \<lparr>rep_results = results,
                    rep_verdicts = verdicts,
                    rep_rows = rows,
                    rep_yes = yes_count verdicts,
                    rep_no = no_count verdicts,
                    rep_total = length verdicts,
                    rep_class = consensus verdicts,
                    rep_state = st'\<rparr>))"

section \<open>The parsing rule as the specification words it\<close>

text \<open>
  The specification describes the verdict token as the trimmed text of the last
  non-empty line of the raw response, the lines being the pieces between line breaks. A
  line counts as non-empty when something is left of it after trimming. A response with
  no such line has no token.
\<close>

definition spec_verdict_token :: "string \<Rightarrow> string option" where
  "spec_verdict_token raw_response =
     (let non_empty = filter (\<lambda>l. strip l \<noteq> []) (split_str nl raw_response)
      in if non_empty = [] then None else Some (strip (last non_empty)))"

definition spec_parse :: "string \<Rightarrow> verdict" where
  "spec_parse raw_response =
     (case spec_verdict_token raw_response of
        None \<Rightarrow> Unknown
      | Some t \<Rightarrow>
          if lower t = lower ''yes'' then Approve
          else if lower t = lower ''no'' then Reject
          else Unknown)"

text \<open>The token as a text, empty when there is none.\<close>

definition token_text :: "string \<Rightarrow> string" where
  "token_text s = (case spec_verdict_token s of None \<Rightarrow> [] | Some t \<Rightarrow> t)"

section \<open>Observations and test clients\<close>

text \<open>The texts of the user-role messages of a request.\<close>

definition user_messages :: "request \<Rightarrow> string list" where
  "user_messages req =
     map msg_content (filter (\<lambda>m. msg_role m = ''user'') (req_messages req))"

text \<open>
  The verdict class of the critique that one invocation returns, when it returns a text.
\<close>

definition invoked_verdict ::
  "'w client \<Rightarrow> string \<Rightarrow> string \<Rightarrow> string \<Rightarrow> string \<Rightarrow> 'w state \<Rightarrow> verdict option" where
  "invoked_verdict client model_choice user_prompt strategy_output code st =
     (case fst (generate_critic client model_choice user_prompt strategy_output code st) of
        Inr (Some text, model) \<Rightarrow> Some (verdict_class (summary_verdict text))
      | Inr (None, model) \<Rightarrow> None
      | Inl x \<Rightarrow> None)"

text \<open>
  The state in which the loop over a list of identifiers stops, and the i-th invocation
  of a run: the call of \<open>generate_critic\<close> for the i-th identifier, made in the state
  that the first i invocations left behind.
\<close>

definition state_after ::
  "'w client \<Rightarrow> string list \<Rightarrow> string \<Rightarrow> string \<Rightarrow> string \<Rightarrow> 'w state \<Rightarrow> 'w state" where
  "state_after client models prompt strategy_output code st =
     snd (collect_critiques client models prompt strategy_output code [] st)"

definition nth_invocation ::
  "'w client \<Rightarrow> string list \<Rightarrow> string \<Rightarrow> string \<Rightarrow> string \<Rightarrow> 'w state \<Rightarrow> nat
     \<Rightarrow> (escape + string option \<times> string) \<times> 'w state" where
  "nth_invocation client models prompt strategy_output code st i =
     generate_critic client (models ! i) prompt strategy_output code
       (state_after client (take i models) prompt strategy_output code st)"

text \<open>
  The program prints the approvals and the total; the verdicts in neither count are the
  unknown ones.
\<close>

definition unknown_count :: "string list \<Rightarrow> nat" where
  "unknown_count verdicts = length (filter (\<lambda>v. verdict_class v = Unknown) verdicts)"

text \<open>
  A transport outcome that the program absorbs: an answer with a text, or an exception
  that is an instance of \<open>Exception\<close> and has a description.
\<close>

definition absorbed :: "exn + string option \<Rightarrow> bool" where
  "absorbed r =
     (case r of
        Inr (Some text) \<Rightarrow> True
      | Inr None \<Rightarrow> False
      | Inl e \<Rightarrow> is_Exception e \<and> str_of e \<noteq> None)"

text \<open>
  Clients for concrete runs. One always raises an \<open>Exception\<close> with a two-line
  description; one always answers with a one-line approval; one always answers with the
  very text that the handler builds for the first; one is interrupted from the keyboard
  on every call (\<open>str(KeyboardInterrupt())\<close> is empty); one always answers with a
  message that has no content.
\<close>

definition raising_client :: "unit client" where
  "raising_client req w = (Inl (Exn True (Some ''upstream said:\<newline>Yes'')), w)"

definition approving_client :: "unit client" where
  "approving_client req w = (Inr (Some ''Yes''), w)"

definition echoing_client :: "unit client" where
  "echoing_client req w =
     (Inr (Some ''Error during API call to gemini: upstream said:\<newline>Yes''), w)"

definition interrupted_client :: "unit client" where
  "interrupted_client req w = (Inl (Exn False (Some [])), w)"

definition silent_client :: "unit client" where
  "silent_client req w = (Inr None, w)"

definition start :: "unit state" where
  "start = \<lparr>world = (), sent = []\<rparr>"

section \<open>Counting and classification\<close>

lemma yes_count_length: "yes_count vs = length (filter (\<lambda>v. lower v = ''yes'') vs)"
  unfolding yes_count_def by (induction vs) simp_all

lemma no_count_length: "no_count vs = length (filter (\<lambda>v. lower v = ''no'') vs)"
  unfolding no_count_def by (induction vs) simp_all


lemma length_filter_all: "length (filter P xs) = length xs \<longleftrightarrow> (\<forall>x \<in> set xs. P x)"
proof (induction xs)
  case Nil
  then show ?case by simp
next
  case (Cons x xs)
  have le: "length (filter P xs) \<le> length xs" by (rule length_filter_le)
  show ?case
  proof (cases "P x")
    case True
    with Cons show ?thesis by simp
  next
    case False
    from le have "length (filter P xs) \<noteq> Suc (length xs)" by arith
    with False show ?thesis by simp
  qed
qed

lemma verdict_class_Approve: "verdict_class v = Approve \<longleftrightarrow> lower v = ''yes''"
  by (simp add: verdict_class_def)

lemma verdict_class_Reject: "verdict_class v = Reject \<longleftrightarrow> lower v = ''no''"
  by (auto simp add: verdict_class_def)

lemma yes_count_all: "yes_count vs = length vs \<longleftrightarrow> (\<forall>v \<in> set vs. verdict_class v = Approve)"
  by (simp add: yes_count_length length_filter_all verdict_class_Approve)

lemma no_count_all: "no_count vs = length vs \<longleftrightarrow> (\<forall>v \<in> set vs. verdict_class v = Reject)"
  by (simp add: no_count_length length_filter_all verdict_class_Reject)


section \<open>Stripping and splitting\<close>

lemma blank_strip: "strip s = [] \<longleftrightarrow> (\<forall>x \<in> set s. isspace x)"
proof -
  have "s = takeWhile isspace s @ lstrip s" by (simp add: lstrip_def)
  then have "set s = set (takeWhile isspace s) \<union> set (lstrip s)"
    by (metis set_append)
  moreover have "\<forall>x \<in> set (takeWhile isspace s). isspace x"
    by (auto dest: set_takeWhileD)
  moreover have "strip s = [] \<longleftrightarrow> (\<forall>x \<in> set (lstrip s). isspace x)"
    by (simp add: strip_def rstrip_def dropWhile_eq_Nil_conv)
  ultimately show ?thesis by auto
qed

lemma lstrip_blank_append: "\<forall>x \<in> set w. isspace x \<Longrightarrow> lstrip (w @ a) = lstrip a"
  by (simp add: lstrip_def dropWhile_append)

lemma rstrip_append_blank: "\<forall>x \<in> set w. isspace x \<Longrightarrow> rstrip (a @ w) = rstrip a"
  by (simp add: rstrip_def dropWhile_append)

lemma rstrip_append_nonblank: "\<not> (\<forall>x \<in> set b. isspace x) \<Longrightarrow> rstrip (a @ b) = a @ rstrip b"
  by (auto simp add: rstrip_def dropWhile_append)

lemma rstrip_blank: "\<forall>x \<in> set w. isspace x \<Longrightarrow> rstrip w = []"
  by (simp add: rstrip_def dropWhile_eq_Nil_conv)

lemma lstrip_blank: "\<forall>x \<in> set w. isspace x \<Longrightarrow> lstrip w = []"
  by (simp add: lstrip_def dropWhile_eq_Nil_conv)

lemma lstrip_append_nonblank: "\<not> (\<forall>x \<in> set a. isspace x) \<Longrightarrow> lstrip (a @ b) = lstrip a @ b"
  by (auto simp add: lstrip_def dropWhile_append)

lemma strip_blank_append: "\<forall>x \<in> set w. isspace x \<Longrightarrow> strip (w @ a) = strip a"
  by (simp add: strip_def lstrip_blank_append)

lemma strip_append_blank:
  assumes "\<forall>x \<in> set w. isspace x"
  shows "strip (a @ w) = strip a"
proof (cases "\<forall>x \<in> set a. isspace x")
  case True
  with assms have "\<forall>x \<in> set (a @ w). isspace x" by auto
  then have "strip (a @ w) = []" by (simp only: blank_strip)
  moreover from True have "strip a = []" by (simp only: blank_strip)
  ultimately show ?thesis by simp
next
  case False
  then show ?thesis
    by (simp add: strip_def lstrip_append_nonblank rstrip_append_blank assms)
qed

lemma lstrip_decomp: "\<exists>w. (\<forall>x \<in> set w. isspace x) \<and> s = w @ lstrip s"
proof -
  have "s = takeWhile isspace s @ lstrip s" by (simp add: lstrip_def)
  moreover have "\<forall>x \<in> set (takeWhile isspace s). isspace x"
    by (auto dest: set_takeWhileD)
  ultimately show ?thesis by blast
qed

lemma rstrip_decomp: "\<exists>w. (\<forall>x \<in> set w. isspace x) \<and> s = rstrip s @ w"
proof -
  have "rev (takeWhile isspace (rev s) @ dropWhile isspace (rev s)) = rev (rev s)"
    by (simp only: takeWhile_dropWhile_id)
  then have "rstrip s @ rev (takeWhile isspace (rev s)) = s"
    by (simp only: rev_append rev_rev_ident rstrip_def)
  moreover have "\<forall>x \<in> set (rev (takeWhile isspace (rev s))). isspace x"
    by (auto dest: set_takeWhileD)
  ultimately show ?thesis by metis
qed

lemma strip_rstrip: "strip (rstrip s) = strip s"
proof -
  obtain w where w: "\<forall>x \<in> set w. isspace x" "s = rstrip s @ w"
    using rstrip_decomp by blast
  have "strip s = strip (rstrip s @ w)" using w(2) by simp
  also have "\<dots> = strip (rstrip s)" using w(1) by (rule strip_append_blank)
  finally show ?thesis by simp
qed

lemma strip_lstrip: "strip (lstrip s) = strip s"
proof -
  obtain w where w: "\<forall>x \<in> set w. isspace x" "s = w @ lstrip s"
    using lstrip_decomp by blast
  have "strip s = strip (w @ lstrip s)" using w(2) by simp
  also have "\<dots> = strip (lstrip s)" using w(1) by (rule strip_blank_append)
  finally show ?thesis by simp
qed

lemma strip_idem: "strip (strip s) = strip s"
  by (metis strip_def strip_rstrip strip_lstrip)

lemma set_rstrip: "set (rstrip s) \<subseteq> set s"
  by (auto simp add: rstrip_def dest: set_dropWhileD)

lemma set_lstrip: "set (lstrip s) \<subseteq> set s"
  by (auto simp add: lstrip_def dest: set_dropWhileD)

lemma set_strip: "set (strip s) \<subseteq> set s"
  using set_rstrip set_lstrip unfolding strip_def by blast

lemma split_str_not_Nil: "split_str c s \<noteq> []"
  by (induction s) (auto split: list.splits)

lemma split_str_no_sep: "c \<notin> set s \<Longrightarrow> split_str c s = [s]"
  by (induction s) auto

lemma split_str_append_sep: "split_str c (a @ c # b) = split_str c a @ split_str c b"
proof (induction a)
  case Nil
  then show ?case by simp
next
  case (Cons x a)
  obtain l ls where l: "split_str c a = l # ls"
    using split_str_not_Nil [of c a] by (cases "split_str c a") auto
  with Cons show ?case by simp
qed

lemma split_str_pieces: "l \<in> set (split_str c s) \<Longrightarrow> set l \<subseteq> set s"
proof (induction s arbitrary: l)
  case Nil
  then show ?case by simp
next
  case (Cons x s)
  obtain k ks where k: "split_str c s = k # ks"
    using split_str_not_Nil [of c s] by (cases "split_str c s") auto
  show ?case
  proof (cases "x = c")
    case True
    with Cons show ?thesis by auto
  next
    case False
    with Cons.prems k have "l = x # k \<or> l \<in> set ks" by simp
    then show ?thesis
    proof
      assume "l = x # k"
      moreover have "set k \<subseteq> set s" using Cons.IH [of k] k by simp
      ultimately show ?thesis by auto
    next
      assume "l \<in> set ks"
      then have "set l \<subseteq> set s" using Cons.IH [of l] k by simp
      then show ?thesis by auto
    qed
  qed
qed

lemma isspace_nl: "isspace nl"
  by (simp add: isspace_def nl_def)

text \<open>The extraction reads the stripped text only.\<close>

lemma summary_verdict_last: "summary_verdict s = strip (last (split_str nl (strip s)))"
  by (simp add: summary_verdict_def split_str_not_Nil)

lemma format_verdict_last: "format_verdict s = strip (last (split_str nl (strip s)))"
  by (simp add: format_verdict_def split_str_not_Nil)

lemma summary_verdict_no_nl:
  assumes "nl \<notin> set s"
  shows "summary_verdict s = strip s"
proof -
  have "nl \<notin> set (strip s)" using assms set_strip by blast
  then show ?thesis by (simp add: summary_verdict_last split_str_no_sep strip_idem)
qed

lemma summary_verdict_last_line:
  assumes nb: "\<not> (\<forall>x \<in> set b. isspace x)" and nonl: "nl \<notin> set b"
  shows "summary_verdict (a @ nl # b) = strip b"
proof (cases "\<forall>x \<in> set a. isspace x")
  case True
  then have "\<forall>x \<in> set (a @ [nl]). isspace x" by (simp add: isspace_nl)
  then have "strip ((a @ [nl]) @ b) = strip b" by (rule strip_blank_append)
  then have s: "strip (a @ nl # b) = strip b" by simp
  have "nl \<notin> set (strip b)" using nonl set_strip by blast
  then show ?thesis by (simp add: summary_verdict_last s split_str_no_sep strip_idem)
next
  case False
  have nb': "\<not> (\<forall>x \<in> set (nl # b). isspace x)" using nb by simp
  have "strip (a @ nl # b) = rstrip (lstrip a @ nl # b)"
    using False by (simp add: strip_def lstrip_append_nonblank)
  also have "\<dots> = rstrip ((lstrip a @ [nl]) @ b)" by simp
  also have "\<dots> = (lstrip a @ [nl]) @ rstrip b" using nb by (rule rstrip_append_nonblank)
  finally have s: "strip (a @ nl # b) = lstrip a @ nl # rstrip b" by simp
  have "nl \<notin> set (rstrip b)" using nonl set_rstrip by blast
  then have "split_str nl (lstrip a @ nl # rstrip b) = split_str nl (lstrip a) @ [rstrip b]"
    by (simp add: split_str_append_sep split_str_no_sep)
  then show ?thesis by (simp add: summary_verdict_last s strip_rstrip)
qed

lemma summary_verdict_blank_tail:
  assumes "\<forall>x \<in> set b. isspace x"
  shows "summary_verdict (a @ nl # b) = summary_verdict a"
proof -
  have "\<forall>x \<in> set (nl # b). isspace x" using assms by (simp add: isspace_nl)
  then have "strip (a @ nl # b) = strip a" by (rule strip_append_blank)
  then show ?thesis by (simp add: summary_verdict_last)
qed

lemma token_no_nl: "nl \<notin> set s \<Longrightarrow> token_text s = strip s"
  by (simp add: token_text_def spec_verdict_token_def split_str_no_sep)

lemma filter_blank_pieces:
  assumes "\<forall>x \<in> set b. isspace x"
  shows "filter (\<lambda>l. strip l \<noteq> []) (split_str nl b) = []"
proof -
  have "\<forall>l \<in> set (split_str nl b). strip l = []"
  proof
    fix l assume "l \<in> set (split_str nl b)"
    then have "set l \<subseteq> set b" by (rule split_str_pieces)
    with assms have "\<forall>x \<in> set l. isspace x" by blast
    then show "strip l = []" by (simp only: blank_strip)
  qed
  then show ?thesis by (simp add: filter_empty_conv)
qed

lemma token_blank_tail:
  assumes "\<forall>x \<in> set b. isspace x"
  shows "token_text (a @ nl # b) = token_text a"
  using filter_blank_pieces [OF assms]
  by (simp add: token_text_def spec_verdict_token_def split_str_append_sep)

lemma token_last_line:
  assumes nb: "\<not> (\<forall>x \<in> set b. isspace x)" and nonl: "nl \<notin> set b"
  shows "token_text (a @ nl # b) = strip b"
proof -
  have "strip b \<noteq> []" using nb by (simp add: blank_strip)
  then show ?thesis using nonl
    by (simp add: token_text_def spec_verdict_token_def split_str_append_sep split_str_no_sep)
qed

lemma summary_verdict_token: "summary_verdict s = token_text s"
proof (induction s rule: length_induct)
  case (1 s)
  show ?case
  proof (cases "nl \<in> set s")
    case False
    then show ?thesis by (simp add: summary_verdict_no_nl token_no_nl)
  next
    case True
    then obtain a b where ab: "s = a @ nl # b" "nl \<notin> set b"
      by (auto dest: split_list_last)
    show ?thesis
    proof (cases "\<forall>x \<in> set b. isspace x")
      case True
      have "length a < length s" using ab by simp
      with 1 have "summary_verdict a = token_text a" by blast
      with True ab show ?thesis
        by (simp add: summary_verdict_blank_tail token_blank_tail)
    next
      case False
      with ab show ?thesis
        by (simp add: summary_verdict_last_line token_last_line)
    qed
  qed
qed

lemma format_verdict_summary: "format_verdict s = summary_verdict s"
  by (simp add: format_verdict_last summary_verdict_last)

lemma lower_yes: "lower ''yes'' = ''yes''"
  by (simp add: lower_def lower_char_def)

lemma lower_no: "lower ''no'' = ''no''"
  by (simp add: lower_def lower_char_def)

lemma verdict_class_Nil: "verdict_class [] = Unknown"
  by (simp add: verdict_class_def lower_def)

lemma verdict_class_token: "verdict_class (token_text raw) = spec_parse raw"
proof (cases "spec_verdict_token raw")
  case None
  then show ?thesis by (simp add: token_text_def spec_parse_def verdict_class_Nil)
next
  case (Some t)
  then show ?thesis
    by (simp add: token_text_def spec_parse_def verdict_class_def lower_yes lower_no)
qed

lemma verdict_class_examples:
  "verdict_class ''Yes'' = Approve \<and> verdict_class ''No'' = Reject
   \<and> verdict_class ''Maybe'' = Unknown"
  by code_simp

section \<open>Claims about parsing\<close>

text \<open>
  Claim C1. For every raw response the verdict is read from the last non-empty line,
  trimmed: a case-insensitive \<open>yes\<close> is an approval, a case-insensitive \<open>no\<close> a
  rejection, and everything else, the empty response included, is unknown. Both places
  that read a verdict (the display of one critique and the summary loop) agree with the
  rule as the specification words it.
\<close>

theorem parse_last_nonempty_line:
  "verdict_class (summary_verdict raw) = spec_parse raw
   \<and> verdict_class (format_verdict raw) = spec_parse raw"
  by (simp add: format_verdict_summary summary_verdict_token verdict_class_token)

theorem parse_last_nonempty_line_witness:
  "verdict_class (summary_verdict ''Matches the request.\<newline> YES \<newline>\<newline>'') = Approve
   \<and> verdict_class (summary_verdict ''Gap: no stop loss\<newline>no'') = Reject
   \<and> verdict_class (summary_verdict ''Maybe'') = Unknown
   \<and> verdict_class (summary_verdict []) = Unknown"
proof -
  have a: "spec_parse ''Matches the request.\<newline> YES \<newline>\<newline>'' = Approve"
    by code_simp
  have b: "spec_parse ''Gap: no stop loss\<newline>no'' = Reject"
    by code_simp
  have c: "spec_parse ''Maybe'' = Unknown"
    by code_simp
  have d: "spec_parse [] = Unknown"
    by code_simp
  show ?thesis
    using a b c d
      parse_last_nonempty_line [of "''Matches the request.\<newline> YES \<newline>\<newline>''"]
      parse_last_nonempty_line [of "''Gap: no stop loss\<newline>no''"]
      parse_last_nonempty_line [of "''Maybe''"]
      parse_last_nonempty_line [of "[]"]
    by simp
qed

section \<open>Claims about aggregation\<close>

text \<open>
  Claim C4. Aggregation classifies by precedence: all approvals give a unanimous
  approval, otherwise all rejections give a unanimous rejection, otherwise the run is
  mixed. In particular a run that holds an unknown verdict, and a run that holds both an
  approval and a rejection, are mixed.
\<close>

theorem consensus_precedence:
  "consensus vs =
     (if \<forall>v \<in> set vs. verdict_class v = Approve then UnanimousApprove
      else if \<forall>v \<in> set vs. verdict_class v = Reject then UnanimousReject
      else Mixed)
   \<and> ((\<exists>v \<in> set vs. verdict_class v = Unknown) \<longrightarrow> consensus vs = Mixed)
   \<and> ((\<exists>v \<in> set vs. verdict_class v = Approve) \<and> (\<exists>v \<in> set vs. verdict_class v = Reject)
        \<longrightarrow> consensus vs = Mixed)"
proof -
  have p: "consensus vs =
     (if \<forall>v \<in> set vs. verdict_class v = Approve then UnanimousApprove
      else if \<forall>v \<in> set vs. verdict_class v = Reject then UnanimousReject
      else Mixed)"
    by (simp add: consensus_def yes_count_all no_count_all)
  have u: "consensus vs = Mixed" if "\<exists>v \<in> set vs. verdict_class v = Unknown"
  proof -
    from that obtain v where "v \<in> set vs" "verdict_class v = Unknown" by blast
    then have "\<not> (\<forall>v \<in> set vs. verdict_class v = Approve)"
      and "\<not> (\<forall>v \<in> set vs. verdict_class v = Reject)" by force+
    with p show ?thesis by simp
  qed
  have m: "consensus vs = Mixed"
    if "(\<exists>v \<in> set vs. verdict_class v = Approve) \<and> (\<exists>v \<in> set vs. verdict_class v = Reject)"
  proof -
    from that obtain v w where "v \<in> set vs" "verdict_class v = Approve"
      "w \<in> set vs" "verdict_class w = Reject" by blast
    then have "\<not> (\<forall>v \<in> set vs. verdict_class v = Approve)"
      and "\<not> (\<forall>v \<in> set vs. verdict_class v = Reject)" by force+
    with p show ?thesis by simp
  qed
  from p u m show ?thesis by blast
qed

theorem consensus_precedence_witness:
  "verdict_class ''Yes'' = Approve \<and> verdict_class ''No'' = Reject
   \<and> verdict_class ''Maybe'' = Unknown
   \<and> consensus [''Yes'', ''Yes'', ''Yes''] = UnanimousApprove
   \<and> consensus [''No'', ''No''] = UnanimousReject
   \<and> consensus [''Yes'', ''No''] = Mixed
   \<and> consensus [''Maybe'', ''Maybe''] = Mixed
   \<and> consensus [''Yes'', ''Maybe''] = Mixed"
  using consensus_precedence [of "[''Yes'', ''Yes'', ''Yes'']"]
    consensus_precedence [of "[''No'', ''No'']"]
    consensus_precedence [of "[''Yes'', ''No'']"]
    consensus_precedence [of "[''Maybe'', ''Maybe'']"]
    consensus_precedence [of "[''Yes'', ''Maybe'']"]
  by (simp add: verdict_class_examples)

section \<open>One invocation\<close>

lemma lower_char_idem: "lower_char (lower_char c) = lower_char c"
proof -
  define n where "n = (of_char c :: nat)"
  have "n < 256" unfolding n_def by simp
  show ?thesis
  proof (cases "(65 \<le> n \<and> n \<le> 90) \<or> (192 \<le> n \<and> n \<le> 222 \<and> n \<noteq> 215)")
    case True
    then have l: "lower_char c = char_of (n + 32)"
      by (simp add: lower_char_def n_def Let_def)
    have m: "(n + 32) mod 256 = n + 32"
      using True by auto
    show ?thesis unfolding l
      using True by (auto simp add: lower_char_def [of "char_of (n + 32)"] m Let_def)
  next
    case False
    then have "lower_char c = c" by (auto simp add: lower_char_def n_def Let_def)
    then show ?thesis by simp
  qed
qed

lemma lower_idem: "lower (lower s) = lower s"
  by (simp add: lower_def lower_char_idem)

lemma registry_cases:
  "map_of CRITIC_MODEL_LIST k = Some m \<Longrightarrow>
     (k = ''gemini'' \<and> m = ''google/gemini-2.5-pro'')
     \<or> (k = ''openai'' \<and> m = ''openai/gpt-4.1'')
     \<or> (k = ''deepseek'' \<and> m = ''deepseek/deepseek-chat-v3.1'')"
  by (simp add: CRITIC_MODEL_LIST_def split: if_splits)

lemma registry_value_not_Nil: "map_of CRITIC_MODEL_LIST k = Some m \<Longrightarrow> m \<noteq> []"
  by (auto dest: registry_cases)

lemma lookup_claude: "map_of CRITIC_MODEL_LIST (lower ''claude'') = None"
  by code_simp

lemma lookup_gemini: "map_of CRITIC_MODEL_LIST (lower ''gemini'') = Some ''google/gemini-2.5-pro''"
  by code_simp

lemma lookup_OpenAI: "map_of CRITIC_MODEL_LIST (lower ''OpenAI'') = Some ''openai/gpt-4.1''"
  by code_simp

lemma lookup_openai: "map_of CRITIC_MODEL_LIST (lower ''openai'') = Some ''openai/gpt-4.1''"
  by code_simp

section \<open>Verdicts of error texts\<close>

lemma rstrip_Cons_nonspace: "\<not> isspace x \<Longrightarrow> rstrip (x # xs) = x # rstrip xs"
  by (simp add: rstrip_def dropWhile_append)

lemma rstrip_snoc_nonspace: "\<not> isspace q \<Longrightarrow> rstrip (y @ [q]) = y @ [q]"
  by (simp add: rstrip_def)

lemma strip_Cons_nonspace: "\<not> isspace x \<Longrightarrow> strip (x # xs) = x # rstrip xs"
  by (simp add: strip_def lstrip_def rstrip_Cons_nonspace)

lemma strip_snoc_nonspace:
  assumes "\<not> isspace q"
  shows "\<exists>z. strip (x @ [q]) = z @ [q]"
proof (cases "\<forall>c \<in> set x. isspace c")
  case True
  then have "lstrip (x @ [q]) = [q]"
    using assms by (simp add: lstrip_def dropWhile_append)
  then have "strip (x @ [q]) = [] @ [q]"
    using assms rstrip_snoc_nonspace [of q "[]"] by (simp add: strip_def)
  then show ?thesis by blast
next
  case False
  then have "lstrip (x @ [q]) = lstrip x @ [q]" by (rule lstrip_append_nonblank)
  then have "strip (x @ [q]) = lstrip x @ [q]"
    using assms by (simp add: strip_def rstrip_snoc_nonspace)
  then show ?thesis by blast
qed

lemma last_split_snoc:
  assumes "q \<noteq> c"
  shows "\<exists>u. last (split_str c (z @ [q])) = u @ [q]"
proof (cases "c \<in> set z")
  case False
  with assms have "c \<notin> set (z @ [q])" by auto
  then have "split_str c (z @ [q]) = [z @ [q]]" by (rule split_str_no_sep)
  then show ?thesis by simp
next
  case True
  then obtain a b where ab: "z = a @ c # b" "c \<notin> set b"
    by (auto dest: split_list_last)
  with assms have "c \<notin> set (b @ [q])" by auto
  then have "split_str c (b @ [q]) = [b @ [q]]" by (rule split_str_no_sep)
  moreover have "split_str c (z @ [q]) = split_str c a @ split_str c (b @ [q])"
    using ab(1) split_str_append_sep [of c a "b @ [q]"] by simp
  ultimately show ?thesis by simp
qed

lemma lower_char_quote: "lower_char (CHR 0x27) = CHR 0x27"
  by (simp add: lower_char_def)

lemma verdict_class_quoted: "verdict_class (z @ [CHR 0x27]) = Unknown"
proof -
  have "last (lower (z @ [CHR 0x27])) = CHR 0x27"
    by (simp add: lower_def lower_char_quote)
  then have "lower (z @ [CHR 0x27]) \<noteq> ''yes''" and "lower (z @ [CHR 0x27]) \<noteq> ''no''"
    by auto
  then show ?thesis by (simp add: verdict_class_def)
qed

lemma nonspace_quote: "\<not> isspace (CHR 0x27)"
  by (simp add: isspace_def)

lemma unknown_model_verdict:
  "verdict_class (summary_verdict (unknown_model_msg mc)) = Unknown"
proof -
  let ?q = "CHR 0x27"
  have m: "unknown_model_msg mc = (''Error: Unknown model '' @ [?q] @ mc) @ [?q]"
    by (simp add: unknown_model_msg_def)
  obtain z where z: "strip (unknown_model_msg mc) = z @ [?q]"
    using strip_snoc_nonspace [OF nonspace_quote] m by metis
  have "?q \<noteq> nl" by (simp add: nl_def)
  then obtain u where u: "last (split_str nl (z @ [?q])) = u @ [?q]"
    using last_split_snoc by blast
  obtain v where v: "strip (u @ [?q]) = v @ [?q]"
    using strip_snoc_nonspace [OF nonspace_quote] by blast
  have "summary_verdict (unknown_model_msg mc) = v @ [?q]"
    by (simp add: summary_verdict_last z u v)
  then show ?thesis by (simp add: verdict_class_quoted)
qed

lemma lower_char_E: "lower_char CHR ''E'' = CHR ''e''"
  by code_simp

lemma verdict_class_E: "verdict_class (CHR ''E'' # r) = Unknown"
  by (simp add: verdict_class_def lower_def lower_char_E)

lemma nonspace_E: "\<not> isspace CHR ''E''"
  by (simp add: isspace_def)

lemma summary_verdict_strip_cong: "strip s = strip t \<Longrightarrow> summary_verdict s = summary_verdict t"
  by (simp add: summary_verdict_last)

lemma verdict_E_line:
  assumes "nl \<notin> set (rstrip r)"
  shows "verdict_class (summary_verdict (CHR ''E'' # r)) = Unknown"
proof -
  have s: "strip (CHR ''E'' # r) = CHR ''E'' # rstrip r"
    using nonspace_E by (rule strip_Cons_nonspace)
  have "nl \<noteq> CHR ''E''" by (simp add: nl_def)
  with assms have "nl \<notin> set (CHR ''E'' # rstrip r)" by simp
  then have "split_str nl (CHR ''E'' # rstrip r) = [CHR ''E'' # rstrip r]"
    by (rule split_str_no_sep)
  then have "summary_verdict (CHR ''E'' # r) = strip (CHR ''E'' # rstrip r)"
    by (simp add: summary_verdict_last s)
  moreover have "strip (CHR ''E'' # rstrip r) = CHR ''E'' # rstrip r"
    using strip_idem [of "CHR ''E'' # r"] unfolding s .
  ultimately show ?thesis by (simp add: verdict_class_E)
qed

lemma rstrip_last_nonspace: "rstrip s \<noteq> [] \<Longrightarrow> \<not> isspace (last (rstrip s))"
proof -
  assume "rstrip s \<noteq> []"
  then have n: "dropWhile isspace (rev s) \<noteq> []" by (simp add: rstrip_def)
  then have "\<not> isspace (hd (dropWhile isspace (rev s)))" by (rule hd_dropWhile)
  moreover have "last (rstrip s) = hd (dropWhile isspace (rev s))"
    using n by (simp add: rstrip_def last_rev)
  ultimately show ?thesis by simp
qed

lemma resolvable_no_nl:
  assumes "map_of CRITIC_MODEL_LIST (lower mc) = Some model"
  shows "nl \<notin> set mc"
proof
  assume "nl \<in> set mc"
  then have "lower_char nl \<in> set (lower mc)" by (simp add: lower_def)
  moreover have "lower_char nl = nl" by (simp add: lower_char_def nl_def)
  ultimately have "nl \<in> set (lower mc)" by simp
  with registry_cases [OF assms] show False by (auto simp add: nl_def)
qed

lemma error_msg_verdict:
  assumes nonl: "nl \<notin> set mc"
  shows "verdict_class (summary_verdict (error_msg mc e)) =
    (if nl \<in> set (rstrip e) then verdict_class (summary_verdict e) else Unknown)"
proof -
  define p' where "p' = ''rror during API call to '' @ mc @ '': ''"
  have msg: "error_msg mc e = CHR ''E'' # p' @ e" by (simp add: error_msg_def p'_def)
  have p'nl: "nl \<notin> set p'" using nonl by (auto simp add: p'_def nl_def)
  obtain w where w: "\<forall>x \<in> set w. isspace x" "e = rstrip e @ w"
    using rstrip_decomp by blast
  show ?thesis
  proof (cases "nl \<in> set (rstrip e)")
    case False
    have "nl \<notin> set (rstrip (p' @ e))"
    proof (cases "\<forall>x \<in> set e. isspace x")
      case True
      then have "rstrip (p' @ e) = rstrip p'" by (rule rstrip_append_blank)
      with p'nl set_rstrip [of p'] show ?thesis by auto
    next
      case blank: False
      then have "rstrip (p' @ e) = p' @ rstrip e" by (rule rstrip_append_nonblank)
      with p'nl False show ?thesis by simp
    qed
    then have "verdict_class (summary_verdict (CHR ''E'' # p' @ e)) = Unknown"
      by (rule verdict_E_line)
    with False show ?thesis by (simp add: msg)
  next
    case True
    then obtain a b where ab: "rstrip e = a @ nl # b" "nl \<notin> set b"
      by (auto dest: split_list_last)
    have ne: "rstrip e \<noteq> []" using ab by simp
    have "\<not> isspace (last (rstrip e))" using ne by (rule rstrip_last_nonspace)
    then have bn: "\<not> (\<forall>x \<in> set b. isspace x)"
      using ab(1) isspace_nl by (cases "b = []") auto
    have e1: "summary_verdict e = summary_verdict (rstrip e)"
      by (rule summary_verdict_strip_cong) (simp add: strip_rstrip)
    have e2: "summary_verdict (rstrip e) = strip b"
      unfolding ab(1) using bn ab(2) by (rule summary_verdict_last_line)
    have "strip ((CHR ''E'' # p' @ rstrip e) @ w) = strip (CHR ''E'' # p' @ rstrip e)"
      using w(1) by (rule strip_append_blank)
    then have "strip (CHR ''E'' # p' @ e) = strip (CHR ''E'' # p' @ rstrip e)"
      using w(2) by (metis append_Cons append_assoc)
    then have m1: "summary_verdict (CHR ''E'' # p' @ e) = summary_verdict (CHR ''E'' # p' @ rstrip e)"
      by (rule summary_verdict_strip_cong)
    have "summary_verdict ((CHR ''E'' # p' @ a) @ nl # b) = strip b"
      using bn ab(2) by (rule summary_verdict_last_line)
    then have m2: "summary_verdict (CHR ''E'' # p' @ rstrip e) = strip b"
      by (simp add: ab(1))
    from True e1 e2 m1 m2 show ?thesis by (simp add: msg)
  qed
qed

section \<open>What one invocation returns\<close>

lemma generate_critic_unknown:
  "map_of CRITIC_MODEL_LIST (lower mc) = None \<Longrightarrow>
     generate_critic client mc p so c st = (Inr (Some (unknown_model_msg mc), mc), st)"
  by (simp add: generate_critic_def)

lemma generate_critic_raised:
  assumes "map_of CRITIC_MODEL_LIST (lower mc) = Some model"
    and "client (critic_request model mc p so c) (world st) = (Inl (Exn True (Some d)), w')"
  shows "generate_critic client mc p so c st =
    (Inr (Some (error_msg mc d), model),
     \<lparr>world = w', sent = sent st @ [critic_request model mc p so c]\<rparr>)"
  using assms registry_value_not_Nil [OF assms(1)]
  by (simp add: generate_critic_def create_def)

lemma generate_critic_answered:
  assumes "map_of CRITIC_MODEL_LIST (lower mc) = Some model"
    and "client (critic_request model mc p so c) (world st) = (Inr content, w')"
  shows "generate_critic client mc p so c st =
    (Inr (content, model), \<lparr>world = w', sent = sent st @ [critic_request model mc p so c]\<rparr>)"
  using assms registry_value_not_Nil [OF assms(1)]
  by (simp add: generate_critic_def create_def)

lemma generate_critic_propagated:
  assumes "map_of CRITIC_MODEL_LIST (lower mc) = Some model"
    and "client (critic_request model mc p so c) (world st) = (Inl (Exn False k), w')"
  shows "generate_critic client mc p so c st =
    (Inl (Propagated (Exn False k)),
     \<lparr>world = w', sent = sent st @ [critic_request model mc p so c]\<rparr>)"
  using assms registry_value_not_Nil [OF assms(1)]
  by (simp add: generate_critic_def create_def)

lemma generate_critic_str_raised:
  assumes "map_of CRITIC_MODEL_LIST (lower mc) = Some model"
    and "client (critic_request model mc p so c) (world st) = (Inl (Exn True None), w')"
  shows "generate_critic client mc p so c st =
    (Inl (Str_raised (Exn True None)),
     \<lparr>world = w', sent = sent st @ [critic_request model mc p so c]\<rparr>)"
  using assms registry_value_not_Nil [OF assms(1)]
  by (simp add: generate_critic_def create_def)

lemma generate_critic_sent:
  assumes "map_of CRITIC_MODEL_LIST (lower mc) = Some model"
  shows "sent (snd (generate_critic client mc p so c st)) =
    sent st @ [critic_request model mc p so c]"
proof -
  obtain r w' where r: "client (critic_request model mc p so c) (world st) = (r, w')"
    by (cases "client (critic_request model mc p so c) (world st)") auto
  show ?thesis
    using assms registry_value_not_Nil [OF assms] r
    by (simp add: generate_critic_def create_def split: sum.splits option.splits)
qed

lemma generate_critic_model:
  assumes "map_of CRITIC_MODEL_LIST (lower mc) = Some model"
    and "fst (generate_critic client mc p so c st) = Inr r"
  shows "snd r = model"
proof -
  obtain out w' where r: "client (critic_request model mc p so c) (world st) = (out, w')"
    by (cases "client (critic_request model mc p so c) (world st)") auto
  show ?thesis
    using assms registry_value_not_Nil [OF assms(1)] r
    by (auto simp add: generate_critic_def create_def split: sum.splits option.splits if_splits)
qed

lemma generate_critic_absorbed:
  assumes "absorbed (fst (client (critic_request model mc p so c) (world st)))"
    and "map_of CRITIC_MODEL_LIST (lower mc) = Some model"
  shows "\<exists>text. fst (generate_critic client mc p so c st) = Inr (Some text, model)"
proof -
  obtain out w' where r: "client (critic_request model mc p so c) (world st) = (out, w')"
    by (cases "client (critic_request model mc p so c) (world st)") auto
  show ?thesis
    using assms registry_value_not_Nil [OF assms(2)] r
    by (auto simp add: generate_critic_def create_def absorbed_def
        split: sum.splits option.splits if_splits)
qed

lemma user_messages_request:
  "user_messages (critic_request model mc p so c) = [CRITIC_PROMPT_format p so c]"
  by (simp add: user_messages_def critic_request_def)

lemma lookup_GEMINI: "map_of CRITIC_MODEL_LIST (lower ''GEMINI'') = Some ''google/gemini-2.5-pro''"
  by code_simp

lemma lookup_deepseek:
  "map_of CRITIC_MODEL_LIST (lower ''deepseek'') = Some ''deepseek/deepseek-chat-v3.1''"
  by code_simp

text \<open>
  Claim C3, as amended. What one invocation returns is fixed by the model table and by
  what the transport call does. An identifier that the table does not resolve gives the
  text \<open>Error: Unknown model '<id>'\<close> with the identifier in place of the model; no
  request is sent and the state is unchanged. For a resolvable identifier exactly one
  request is sent. When the call raises an instance of \<open>Exception\<close> that has a
  description, the exception is caught and the text returned is the description after the
  prefix \<open>Error during API call to <id>: \<close>. When the call answers, the content is
  returned as it came, be it a text or \<open>None\<close>. An exception that is not an
  instance of \<open>Exception\<close> leaves the invocation, and so does the failure to format
  a caught exception. The pair returned has two components, the text and the model: it
  holds no mark of success or failure.
\<close>

theorem invoke_result:
  "(map_of CRITIC_MODEL_LIST (lower mc) = None \<longrightarrow>
      generate_critic client mc p so c st = (Inr (Some (unknown_model_msg mc), mc), st))
   \<and> (\<forall>model d w'.
        map_of CRITIC_MODEL_LIST (lower mc) = Some model
        \<and> client (critic_request model mc p so c) (world st) = (Inl (Exn True (Some d)), w') \<longrightarrow>
        generate_critic client mc p so c st =
          (Inr (Some (error_msg mc d), model),
           \<lparr>world = w', sent = sent st @ [critic_request model mc p so c]\<rparr>))
   \<and> (\<forall>model content w'.
        map_of CRITIC_MODEL_LIST (lower mc) = Some model
        \<and> client (critic_request model mc p so c) (world st) = (Inr content, w') \<longrightarrow>
        generate_critic client mc p so c st =
          (Inr (content, model),
           \<lparr>world = w', sent = sent st @ [critic_request model mc p so c]\<rparr>))
   \<and> (\<forall>model k w'.
        map_of CRITIC_MODEL_LIST (lower mc) = Some model
        \<and> client (critic_request model mc p so c) (world st) = (Inl (Exn False k), w') \<longrightarrow>
        generate_critic client mc p so c st =
          (Inl (Propagated (Exn False k)),
           \<lparr>world = w', sent = sent st @ [critic_request model mc p so c]\<rparr>))
   \<and> (\<forall>model w'.
        map_of CRITIC_MODEL_LIST (lower mc) = Some model
        \<and> client (critic_request model mc p so c) (world st) = (Inl (Exn True None), w') \<longrightarrow>
        generate_critic client mc p so c st =
          (Inl (Str_raised (Exn True None)),
           \<lparr>world = w', sent = sent st @ [critic_request model mc p so c]\<rparr>))"
  by (simp add: generate_critic_unknown generate_critic_raised generate_critic_answered
      generate_critic_propagated generate_critic_str_raised)

text \<open>
  Claim C3 as stated fails on three counts. An interrupt from the keyboard during the
  transport call leaves the invocation as an exception. The text returned for a caught
  exception is not the exception's description but a longer text that starts with a
  prefix naming the judge. And a judge that answers with that very text gives the same
  result as the failed call, so that nothing in the result tells a failure from an answer.
\<close>

theorem invoke_escapes_and_prefixes:
  "fst (generate_critic interrupted_client ''gemini'' ''p'' ''s'' ''c'' start)
     = Inl (Propagated (Exn False (Some [])))
   \<and> fst (generate_critic raising_client ''gemini'' ''p'' ''s'' ''c'' start)
     = Inr (Some ''Error during API call to gemini: upstream said:\<newline>Yes'',
            ''google/gemini-2.5-pro'')
   \<and> fst (generate_critic echoing_client ''gemini'' ''p'' ''s'' ''c'' start)
     = fst (generate_critic raising_client ''gemini'' ''p'' ''s'' ''c'' start)"
proof -
  let ?req = "critic_request ''google/gemini-2.5-pro'' ''gemini'' ''p'' ''s'' ''c''"
  have i: "interrupted_client ?req (world start) = (Inl (Exn False (Some [])), ())"
    by (simp add: interrupted_client_def)
  have r: "raising_client ?req (world start) = (Inl (Exn True (Some ''upstream said:\<newline>Yes'')), ())"
    by (simp add: raising_client_def)
  have e: "echoing_client ?req (world start)
      = (Inr (Some ''Error during API call to gemini: upstream said:\<newline>Yes''), ())"
    by (simp add: echoing_client_def)
  have a: "fst (generate_critic interrupted_client ''gemini'' ''p'' ''s'' ''c'' start)
     = Inl (Propagated (Exn False (Some [])))"
    using lookup_gemini i by (simp add: generate_critic_propagated)
  have b: "fst (generate_critic raising_client ''gemini'' ''p'' ''s'' ''c'' start)
     = Inr (Some (error_msg ''gemini'' ''upstream said:\<newline>Yes''), ''google/gemini-2.5-pro'')"
    using lookup_gemini r by (simp add: generate_critic_raised)
  have c: "fst (generate_critic echoing_client ''gemini'' ''p'' ''s'' ''c'' start)
     = Inr (Some ''Error during API call to gemini: upstream said:\<newline>Yes'',
            ''google/gemini-2.5-pro'')"
    using lookup_gemini e by (simp add: generate_critic_answered)
  show ?thesis by (simp add: a b c error_msg_def)
qed

theorem invoke_result_witness:
  "generate_critic raising_client ''claude'' ''p'' ''s'' ''c'' start
     = (Inr (Some (''Error: Unknown model '' @ [CHR 0x27] @ ''claude'' @ [CHR 0x27]), ''claude''),
        start)
   \<and> fst (generate_critic raising_client ''gemini'' ''p'' ''s'' ''c'' start)
     = Inr (Some ''Error during API call to gemini: upstream said:\<newline>Yes'',
            ''google/gemini-2.5-pro'')
   \<and> fst (generate_critic approving_client ''gemini'' ''p'' ''s'' ''c'' start)
     = Inr (Some ''Yes'', ''google/gemini-2.5-pro'')
   \<and> fst (generate_critic interrupted_client ''gemini'' ''p'' ''s'' ''c'' start)
     = Inl (Propagated (Exn False (Some [])))"
proof -
  let ?req = "critic_request ''google/gemini-2.5-pro'' ''gemini'' ''p'' ''s'' ''c''"
  have i: "interrupted_client ?req (world start) = (Inl (Exn False (Some [])), ())"
    by (simp add: interrupted_client_def)
  have r: "raising_client ?req (world start) = (Inl (Exn True (Some ''upstream said:\<newline>Yes'')), ())"
    by (simp add: raising_client_def)
  have y: "approving_client ?req (world start) = (Inr (Some ''Yes''), ())"
    by (simp add: approving_client_def)
  from invoke_result [of "''claude''" raising_client "''p''" "''s''" "''c''" start] lookup_claude
  have a: "generate_critic raising_client ''claude'' ''p'' ''s'' ''c'' start
     = (Inr (Some (unknown_model_msg ''claude''), ''claude''), start)" by blast
  from invoke_result [of "''gemini''" raising_client "''p''" "''s''" "''c''" start] lookup_gemini r
  have b: "generate_critic raising_client ''gemini'' ''p'' ''s'' ''c'' start =
          (Inr (Some (error_msg ''gemini'' ''upstream said:\<newline>Yes''), ''google/gemini-2.5-pro''),
           \<lparr>world = (), sent = sent start @ [?req]\<rparr>)"
    by blast
  from invoke_result [of "''gemini''" approving_client "''p''" "''s''" "''c''" start] lookup_gemini y
  have c: "generate_critic approving_client ''gemini'' ''p'' ''s'' ''c'' start =
          (Inr (Some ''Yes'', ''google/gemini-2.5-pro''),
           \<lparr>world = (), sent = sent start @ [?req]\<rparr>)"
    by blast
  from invoke_result [of "''gemini''" interrupted_client "''p''" "''s''" "''c''" start] lookup_gemini i
  have d: "generate_critic interrupted_client ''gemini'' ''p'' ''s'' ''c'' start =
          (Inl (Propagated (Exn False (Some []))),
           \<lparr>world = (), sent = sent start @ [?req]\<rparr>)"
    by blast
  show ?thesis by (simp add: a b c d unknown_model_msg_def error_msg_def)
qed

text \<open>
  Claim C6. The response cap is chosen by comparing the identifier as the caller wrote it
  with \<open>openai\<close>, while the model is looked up under the lower-cased identifier. The
  identifier \<open>OpenAI\<close> therefore reaches the model of the judge with the large cap,
  and the request is sent with the small cap of 2000; the identifier \<open>openai\<close>
  reaches the same model with the cap of 10000.
\<close>

theorem openai_cap_depends_on_case:
  "sent (snd (generate_critic client ''OpenAI'' p so c st))
     = sent st @ [critic_request ''openai/gpt-4.1'' ''OpenAI'' p so c]
   \<and> req_model (critic_request ''openai/gpt-4.1'' ''OpenAI'' p so c) = ''openai/gpt-4.1''
   \<and> req_max_completion_tokens (critic_request ''openai/gpt-4.1'' ''OpenAI'' p so c) = 2000
   \<and> sent (snd (generate_critic client ''openai'' p so c st))
     = sent st @ [critic_request ''openai/gpt-4.1'' ''openai'' p so c]
   \<and> req_max_completion_tokens (critic_request ''openai/gpt-4.1'' ''openai'' p so c) = 10000"
  by (simp add: generate_critic_sent [OF lookup_OpenAI] generate_critic_sent [OF lookup_openai]
      critic_request_def)

text \<open>
  Claim C7. The user message sent to the transport is a function of the request text, the
  strategy description and the code alone: whatever the client, the earlier state and the
  judge chosen, the one request sent carries one user message, the three values under
  their headings in a fixed order.
\<close>

theorem user_message_reproducible:
  assumes "map_of CRITIC_MODEL_LIST (lower mc1) = Some m1"
    and "map_of CRITIC_MODEL_LIST (lower mc2) = Some m2"
  shows "map user_messages (drop (length (sent st1))
            (sent (snd (generate_critic client1 mc1 p so c st1))))
       = [[''## User Request (Prompt)\<newline>'' @ p @ ''\<newline>\<newline>## Generated Strategy\<newline>'' @ so
            @ ''\<newline>\<newline>## Code\<newline>'' @ c @ ''\<newline>'']]
     \<and> map user_messages (drop (length (sent st2))
            (sent (snd (generate_critic client2 mc2 p so c st2))))
       = map user_messages (drop (length (sent st1))
            (sent (snd (generate_critic client1 mc1 p so c st1))))"
  by (simp add: generate_critic_sent [OF assms(1)] generate_critic_sent [OF assms(2)]
      user_messages_request CRITIC_PROMPT_format_def)

theorem user_message_reproducible_witness:
  "map user_messages (drop (length (sent start))
      (sent (snd (generate_critic raising_client ''gemini'' ''buy low'' ''sma'' ''pass'' start))))
     = [[''## User Request (Prompt)\<newline>buy low\<newline>\<newline>## Generated Strategy\<newline>sma\<newline>\<newline>## Code\<newline>pass\<newline>'']]
   \<and> map user_messages (drop (length (sent start))
      (sent (snd (generate_critic approving_client ''OpenAI'' ''buy low'' ''sma'' ''pass'' start))))
     = [[''## User Request (Prompt)\<newline>buy low\<newline>\<newline>## Generated Strategy\<newline>sma\<newline>\<newline>## Code\<newline>pass\<newline>'']]"
  using user_message_reproducible [OF lookup_gemini lookup_OpenAI,
      of start raising_client "''buy low''" "''sma''" "''pass''" start approving_client]
  by simp

text \<open>
  Claim C9. The model table is consulted under the lower-cased identifier. When the
  lower-cased identifier is a key of the table, the invocation under the identifier as
  written and the invocation under its lower-cased form each send exactly one request, the
  request names the model of that key, and whatever pair either invocation returns holds
  that model. When it is not a key, both invocations return the unknown-model text and
  send nothing. So \<open>GEMINI\<close> and \<open>gemini\<close> both reach
  \<open>google/gemini-2.5-pro\<close>.
\<close>

theorem resolution_case_insensitive:
  "(\<forall>model. map_of CRITIC_MODEL_LIST (lower s) = Some model \<longrightarrow>
        map_of CRITIC_MODEL_LIST (lower (lower s)) = Some model
      \<and> sent (snd (generate_critic client s p so c st))
          = sent st @ [critic_request model s p so c]
      \<and> sent (snd (generate_critic client (lower s) p so c st))
          = sent st @ [critic_request model (lower s) p so c]
      \<and> req_model (critic_request model s p so c) = model
      \<and> req_model (critic_request model (lower s) p so c) = model
      \<and> (\<forall>r. fst (generate_critic client s p so c st) = Inr r \<longrightarrow> snd r = model)
      \<and> (\<forall>r. fst (generate_critic client (lower s) p so c st) = Inr r \<longrightarrow> snd r = model))
   \<and> (map_of CRITIC_MODEL_LIST (lower s) = None \<longrightarrow>
        map_of CRITIC_MODEL_LIST (lower (lower s)) = None
      \<and> generate_critic client s p so c st = (Inr (Some (unknown_model_msg s), s), st)
      \<and> generate_critic client (lower s) p so c st
          = (Inr (Some (unknown_model_msg (lower s)), lower s), st))"
proof (intro conjI allI impI)
  fix model
  assume m: "map_of CRITIC_MODEL_LIST (lower s) = Some model"
  then show l: "map_of CRITIC_MODEL_LIST (lower (lower s)) = Some model"
    by (simp add: lower_idem)
  show "sent (snd (generate_critic client s p so c st)) = sent st @ [critic_request model s p so c]"
    using m by (rule generate_critic_sent)
  show "sent (snd (generate_critic client (lower s) p so c st))
          = sent st @ [critic_request model (lower s) p so c]"
    using l by (rule generate_critic_sent)
  show "req_model (critic_request model s p so c) = model"
    by (simp add: critic_request_def)
  show "req_model (critic_request model (lower s) p so c) = model"
    by (simp add: critic_request_def)
  fix r
  show "fst (generate_critic client s p so c st) = Inr r \<Longrightarrow> snd r = model"
    using m by (rule generate_critic_model)
  show "fst (generate_critic client (lower s) p so c st) = Inr r \<Longrightarrow> snd r = model"
    using l by (rule generate_critic_model)
next
  assume n: "map_of CRITIC_MODEL_LIST (lower s) = None"
  then show l: "map_of CRITIC_MODEL_LIST (lower (lower s)) = None"
    by (simp add: lower_idem)
  show "generate_critic client s p so c st = (Inr (Some (unknown_model_msg s), s), st)"
    using n by (rule generate_critic_unknown)
  show "generate_critic client (lower s) p so c st
          = (Inr (Some (unknown_model_msg (lower s)), lower s), st)"
    using l by (rule generate_critic_unknown)
qed

theorem resolution_case_insensitive_witness:
  "lower ''GEMINI'' = ''gemini''
   \<and> map req_model (sent (snd (generate_critic approving_client ''GEMINI'' ''p'' ''s'' ''c'' start)))
       = [''google/gemini-2.5-pro'']
   \<and> map req_model (sent (snd (generate_critic approving_client ''gemini'' ''p'' ''s'' ''c'' start)))
       = [''google/gemini-2.5-pro'']
   \<and> fst (generate_critic approving_client ''GEMINI'' ''p'' ''s'' ''c'' start)
       = Inr (Some ''Yes'', ''google/gemini-2.5-pro'')"
proof -
  have lo: "lower ''GEMINI'' = ''gemini''" by code_simp
  note t = resolution_case_insensitive [of "''GEMINI''" approving_client "''p''" "''s''" "''c''" start]
  have a: "sent (snd (generate_critic approving_client ''GEMINI'' ''p'' ''s'' ''c'' start))
      = sent start @ [critic_request ''google/gemini-2.5-pro'' ''GEMINI'' ''p'' ''s'' ''c'']"
    using t lookup_GEMINI by blast
  have b: "sent (snd (generate_critic approving_client (lower ''GEMINI'') ''p'' ''s'' ''c'' start))
      = sent start @ [critic_request ''google/gemini-2.5-pro'' (lower ''GEMINI'') ''p'' ''s'' ''c'']"
    using t lookup_GEMINI by blast
  have y: "approving_client (critic_request ''google/gemini-2.5-pro'' ''GEMINI'' ''p'' ''s'' ''c'')
      (world start) = (Inr (Some ''Yes''), ())"
    by (simp add: approving_client_def)
  have c: "fst (generate_critic approving_client ''GEMINI'' ''p'' ''s'' ''c'' start)
       = Inr (Some ''Yes'', ''google/gemini-2.5-pro'')"
    using lookup_GEMINI y by (simp add: generate_critic_answered)
  show ?thesis
    using a b c by (simp add: lo start_def critic_request_def)
qed

section \<open>Claims about failed invocations\<close>

text \<open>
  Claim C2, as amended. The summary loop reads a verdict from whatever text an invocation
  returned; it does not know whether the invocation failed. A result for an identifier
  that is not in the model table always parses to unknown. A result for a caught transport
  exception parses to unknown when the exception's description, without its trailing
  whitespace, has no line break; when it has one, the verdict is the one read from the
  description itself, that is from its last non-empty line.
\<close>

theorem failed_invocation_verdict:
  "(map_of CRITIC_MODEL_LIST (lower mc) = None \<longrightarrow>
      invoked_verdict client mc p so c st = Some Unknown)
   \<and> (\<forall>model e w'.
        map_of CRITIC_MODEL_LIST (lower mc) = Some model
        \<and> client (critic_request model mc p so c) (world st) = (Inl (Exn True (Some e)), w') \<longrightarrow>
        invoked_verdict client mc p so c st =
          Some (if nl \<in> set (rstrip e) then verdict_class (summary_verdict e) else Unknown))"
proof (intro conjI allI impI)
  assume "map_of CRITIC_MODEL_LIST (lower mc) = None"
  then show "invoked_verdict client mc p so c st = Some Unknown"
    by (simp add: invoked_verdict_def generate_critic_unknown unknown_model_verdict)
next
  fix model e w'
  assume a: "map_of CRITIC_MODEL_LIST (lower mc) = Some model
        \<and> client (critic_request model mc p so c) (world st) = (Inl (Exn True (Some e)), w')"
  then have "nl \<notin> set mc" using resolvable_no_nl by blast
  then have "verdict_class (summary_verdict (error_msg mc e)) =
    (if nl \<in> set (rstrip e) then verdict_class (summary_verdict e) else Unknown)"
    by (rule error_msg_verdict)
  with a show "invoked_verdict client mc p so c st =
          Some (if nl \<in> set (rstrip e) then verdict_class (summary_verdict e) else Unknown)"
    by (simp add: invoked_verdict_def generate_critic_raised)
qed

text \<open>
  Claim C2 as stated fails: the transport raises an exception whose description ends in a
  line \<open>Yes\<close>, and the verdict read from the result of the failed invocation is an
  approval.
\<close>

theorem failed_invocation_approves:
  "fst (raising_client (critic_request ''google/gemini-2.5-pro'' ''gemini'' ''p'' ''s'' ''c'') ())
     = Inl (Exn True (Some ''upstream said:\<newline>Yes''))
   \<and> invoked_verdict raising_client ''gemini'' ''p'' ''s'' ''c'' start = Some Approve"
proof -
  have r: "raising_client (critic_request ''google/gemini-2.5-pro'' ''gemini'' ''p'' ''s'' ''c'')
      (world start) = (Inl (Exn True (Some ''upstream said:\<newline>Yes'')), ())"
    by (simp add: raising_client_def)
  have "fst (generate_critic raising_client ''gemini'' ''p'' ''s'' ''c'' start) =
    Inr (Some (error_msg ''gemini'' ''upstream said:\<newline>Yes''), ''google/gemini-2.5-pro'')"
    using lookup_gemini r by (simp add: generate_critic_raised)
  moreover have "verdict_class (summary_verdict (error_msg ''gemini'' ''upstream said:\<newline>Yes'')) = Approve"
    by code_simp
  ultimately show ?thesis by (simp add: invoked_verdict_def raising_client_def)
qed

theorem failed_invocation_verdict_witness:
  "invoked_verdict raising_client ''claude'' ''p'' ''s'' ''c'' start = Some Unknown
   \<and> invoked_verdict raising_client ''deepseek'' ''p'' ''s'' ''c'' start = Some Approve"
proof -
  have r: "raising_client (critic_request ''deepseek/deepseek-chat-v3.1'' ''deepseek'' ''p'' ''s'' ''c'')
      (world start) = (Inl (Exn True (Some ''upstream said:\<newline>Yes'')), ())"
    by (simp add: raising_client_def)
  have v: "(if nl \<in> set (rstrip ''upstream said:\<newline>Yes'')
            then verdict_class (summary_verdict ''upstream said:\<newline>Yes'') else Unknown) = Approve"
    by code_simp
  from failed_invocation_verdict [of "''claude''" raising_client "''p''" "''s''" "''c''" start]
    lookup_claude
  have a: "invoked_verdict raising_client ''claude'' ''p'' ''s'' ''c'' start = Some Unknown"
    by blast
  from failed_invocation_verdict [of "''deepseek''" raising_client "''p''" "''s''" "''c''" start]
    lookup_deepseek r
  have "invoked_verdict raising_client ''deepseek'' ''p'' ''s'' ''c'' start =
     Some (if nl \<in> set (rstrip ''upstream said:\<newline>Yes'')
            then verdict_class (summary_verdict ''upstream said:\<newline>Yes'') else Unknown)"
    by blast
  with v a show ?thesis by simp
qed

section \<open>The loop over the judges\<close>

lemma format_Some: "\<exists>printed. format_critique_output (Some body) model = Inr printed"
  by (simp add: format_critique_output_def Let_def)

lemma format_None: "format_critique_output None model = Inl AttributeError"
  by (simp add: format_critique_output_def)

text \<open>One step of the loop, by what the invocation gives.\<close>

lemma collect_Cons_text:
  assumes "generate_critic client m p so c st = (Inr (Some body, model), st')"
  shows "collect_critiques client (m # ms) p so c acc st =
    collect_critiques client ms p so c (acc @ [(Some body, model, m)]) st'"
  using assms format_Some [of body model] by auto

lemma collect_Cons_escape:
  assumes "generate_critic client m p so c st = (Inl x, st')"
  shows "collect_critiques client (m # ms) p so c acc st = (Inl x, st')"
  using assms by simp

lemma collect_Cons_None:
  assumes "generate_critic client m p so c st = (Inr (None, model), st')"
  shows "collect_critiques client (m # ms) p so c acc st = (Inl AttributeError, st')"
  using assms by (simp add: format_None)

lemma generate_critic_cases:
  obtains (answered) ans model st' where
      "generate_critic client m p so c st = (Inr (Some ans, model), st')"
  | (none) model st' where "generate_critic client m p so c st = (Inr (None, model), st')"
  | (escape) x st' where "generate_critic client m p so c st = (Inl x, st')"
proof -
  obtain r st' where g: "generate_critic client m p so c st = (r, st')"
    by (cases "generate_critic client m p so c st") auto
  show ?thesis
  proof (cases r)
    case (Inl x)
    with g escape show ?thesis by simp
  next
    case (Inr b)
    obtain cr model where b: "b = (cr, model)" by (cases b) auto
    show ?thesis
    proof (cases cr)
      case None
      with g Inr b none show ?thesis by simp
    next
      case (Some ans)
      with g Inr b answered show ?thesis by simp
    qed
  qed
qed

lemma collect_acc:
  "collect_critiques client ms p so c acc st =
     (map_sum id ((@) acc) (fst (collect_critiques client ms p so c [] st)),
      snd (collect_critiques client ms p so c [] st))"
proof (induction ms arbitrary: acc st)
  case Nil
  then show ?case by simp
next
  case (Cons m ms)
  show ?case
  proof (cases rule: generate_critic_cases [of client m p so c st])
    case (answered ans model st')
    show ?thesis
      using Cons [of "acc @ [(Some ans, model, m)]" st'] Cons [of "[(Some ans, model, m)]" st']
      by (simp only: collect_Cons_text [OF answered])
        (cases "fst (collect_critiques client ms p so c [] st')", simp_all)
  next
    case (none model st')
    then show ?thesis by (simp only: collect_Cons_None [OF none]) simp
  next
    case (escape x st')
    then show ?thesis by (simp only: collect_Cons_escape [OF escape]) simp
  qed
qed

lemma collect_acc_Inr:
  assumes "collect_critiques client ms p so c acc st = (Inr res, st')"
  shows "\<exists>res'. res = acc @ res' \<and> collect_critiques client ms p so c [] st = (Inr res', st')"
proof -
  from assms collect_acc [of client ms p so c acc st]
  have e: "map_sum id ((@) acc) (fst (collect_critiques client ms p so c [] st)) = Inr res"
    and s: "snd (collect_critiques client ms p so c [] st) = st'" by simp_all
  from e obtain res' where "fst (collect_critiques client ms p so c [] st) = Inr res'"
    "res = acc @ res'"
    by (cases "fst (collect_critiques client ms p so c [] st)") auto
  with s show ?thesis by (metis prod.collapse)
qed

lemma collect_append:
  "collect_critiques client (xs @ ys) p so c acc st =
     (case collect_critiques client xs p so c acc st of
        (Inl x, st') \<Rightarrow> (Inl x, st')
      | (Inr res, st') \<Rightarrow> collect_critiques client ys p so c res st')"
proof (induction xs arbitrary: acc st)
  case Nil
  then show ?case by simp
next
  case (Cons m ms)
  show ?case
  proof (cases rule: generate_critic_cases [of client m p so c st])
    case (answered ans model st')
    show ?thesis
      using Cons [of "acc @ [(Some ans, model, m)]" st']
      by (simp only: append_Cons collect_Cons_text [OF answered])
  next
    case (none model st')
    then show ?thesis by (simp only: append_Cons collect_Cons_None [OF none]) simp
  next
    case (escape x st')
    then show ?thesis by (simp only: append_Cons collect_Cons_escape [OF escape]) simp
  qed
qed

lemma collect_Inr_props:
  assumes "collect_critiques client ms p so c [] st = (Inr res, st')"
  shows "length res = length ms
    \<and> map (\<lambda>(critique, model, model_choice). model_choice) res = ms
    \<and> (\<forall>x \<in> set res. fst x \<noteq> None)"
  using assms
proof (induction ms arbitrary: st res)
  case Nil
  then show ?case by simp
next
  case (Cons m ms)
  show ?case
  proof (cases rule: generate_critic_cases [of client m p so c st])
    case (answered ans model st1)
    from Cons.prems have "collect_critiques client ms p so c ([] @ [(Some ans, model, m)]) st1
        = (Inr res, st')"
      by (simp only: collect_Cons_text [OF answered])
    then obtain res' where r: "res = [(Some ans, model, m)] @ res'"
      "collect_critiques client ms p so c [] st1 = (Inr res', st')"
      using collect_acc_Inr [of client ms p so c "[(Some ans, model, m)]" st1 res st'] by auto
    from Cons.IH [OF r(2)] r(1) show ?thesis by simp
  next
    case (none model st1)
    with Cons.prems show ?thesis by (simp only: collect_Cons_None [OF none]) simp
  next
    case (escape x st1)
    with Cons.prems show ?thesis by (simp only: collect_Cons_escape [OF escape]) simp
  qed
qed

lemma collect_nth:
  assumes c: "collect_critiques client ms p so c [] st = (Inr res, st')" and i: "i < length ms"
  shows "\<exists>ans model.
      nth_invocation client ms p so c st i =
        (Inr (Some ans, model), state_after client (take (Suc i) ms) p so c st)
    \<and> res ! i = (Some ans, model, ms ! i)"
proof -
  let ?pre = "collect_critiques client (take i ms) p so c [] st"
  have ms: "ms = take i ms @ (ms ! i) # drop (Suc i) ms"
    using i by (simp add: id_take_nth_drop [symmetric])
  have ap: "collect_critiques client ms p so c [] st =
    (case ?pre of (Inl x, st1) \<Rightarrow> (Inl x, st1)
     | (Inr r, st1) \<Rightarrow> collect_critiques client ((ms ! i) # drop (Suc i) ms) p so c r st1)"
    using collect_append [of client "take i ms" "(ms ! i) # drop (Suc i) ms" p so c "[]" st] ms
    by simp
  obtain o1 stA where pre: "?pre = (o1, stA)" by (cases ?pre) auto
  obtain resA where o1: "o1 = Inr resA"
    using ap c pre by (cases o1) auto
  have rest: "collect_critiques client ((ms ! i) # drop (Suc i) ms) p so c resA stA = (Inr res, st')"
    using ap c pre o1 by simp
  have lenA: "length resA = i"
    using collect_Inr_props [of client "take i ms" p so c st resA stA] pre o1 i by simp
  have sa: "state_after client (take i ms) p so c st = stA"
    by (simp add: state_after_def pre)
  show ?thesis
  proof (cases rule: generate_critic_cases [of client "ms ! i" p so c stA])
    case (answered ans model stB)
    from rest have "collect_critiques client (drop (Suc i) ms) p so c
        (resA @ [(Some ans, model, ms ! i)]) stB = (Inr res, st')"
      by (simp only: collect_Cons_text [OF answered])
    then obtain res' where "res = (resA @ [(Some ans, model, ms ! i)]) @ res'"
      using collect_acc_Inr by blast
    with lenA have n: "res ! i = (Some ans, model, ms ! i)" by (simp add: nth_append)
    have "take (Suc i) ms = take i ms @ [ms ! i]"
      using i by (rule take_Suc_conv_app_nth)
    then have "collect_critiques client (take (Suc i) ms) p so c [] st =
        collect_critiques client [ms ! i] p so c resA stA"
      using collect_append [of client "take i ms" "[ms ! i]" p so c "[]" st] pre o1 by simp
    also have "\<dots> = collect_critiques client [] p so c (resA @ [(Some ans, model, ms ! i)]) stB"
      by (simp only: collect_Cons_text [OF answered])
    finally have "state_after client (take (Suc i) ms) p so c st = stB"
      by (simp add: state_after_def)
    with answered n sa show ?thesis by (simp add: nth_invocation_def)
  next
    case (none model stB)
    with rest show ?thesis by (simp only: collect_Cons_None [OF none]) simp
  next
    case (escape x stB)
    with rest show ?thesis by (simp only: collect_Cons_escape [OF escape]) simp
  qed
qed

lemma summary_loop_all:
  assumes "\<forall>x \<in> set res. fst x \<noteq> None"
  shows "summary_loop res vs rows =
    Inr (vs @ map (\<lambda>(critique, model, model_choice). summary_verdict (the critique)) res,
         rows @ map (\<lambda>(critique, model, model_choice).
                       (model_choice, model, summary_verdict (the critique))) res)"
  using assms
proof (induction res arbitrary: vs rows)
  case Nil
  then show ?case by simp
next
  case (Cons x res)
  obtain cr model mc where x: "x = (cr, model, mc)" by (cases x) auto
  with Cons.prems obtain ans where cr: "cr = Some ans" by auto
  from Cons.prems have "\<forall>y \<in> set res. fst y \<noteq> None" by simp
  from Cons.IH [OF this] show ?case by (simp add: x cr)
qed

lemma run_of_collect:
  assumes "collect_critiques client ms p so c [] st = (Inr res, st')"
  shows "run client ms p so c st =
    Inr \<lparr>rep_results = res,
         rep_verdicts = map (\<lambda>(critique, model, model_choice). summary_verdict (the critique)) res,
         rep_rows = map (\<lambda>(critique, model, model_choice).
                       (model_choice, model, summary_verdict (the critique))) res,
         rep_yes = yes_count
           (map (\<lambda>(critique, model, model_choice). summary_verdict (the critique)) res),
         rep_no = no_count
           (map (\<lambda>(critique, model, model_choice). summary_verdict (the critique)) res),
         rep_total = length res,
         rep_class = consensus
           (map (\<lambda>(critique, model, model_choice). summary_verdict (the critique)) res),
         rep_state = st'\<rparr>"
proof -
  have "\<forall>x \<in> set res. fst x \<noteq> None"
    using collect_Inr_props [OF assms] by blast
  then have "summary_loop res [] [] =
    Inr (map (\<lambda>(critique, model, model_choice). summary_verdict (the critique)) res,
         map (\<lambda>(critique, model, model_choice).
                       (model_choice, model, summary_verdict (the critique))) res)"
    using summary_loop_all [of res "[]" "[]"] by simp
  with assms show ?thesis by (simp add: run_def)
qed

lemma run_escape_of_collect:
  "collect_critiques client ms p so c [] st = (Inl x, st') \<Longrightarrow> run client ms p so c st = Inl x"
  by (simp add: run_def)

lemma run_Inr_collect:
  assumes "run client ms p so c st = Inr r"
  shows "collect_critiques client ms p so c [] st = (Inr (rep_results r), rep_state r)"
proof -
  obtain o1 st' where c: "collect_critiques client ms p so c [] st = (o1, st')"
    by (cases "collect_critiques client ms p so c [] st") auto
  show ?thesis
  proof (cases o1)
    case (Inl x)
    with c assms show ?thesis by (simp add: run_def)
  next
    case (Inr res)
    with c have "collect_critiques client ms p so c [] st = (Inr res, st')" by simp
    from run_of_collect [OF this] assms this show ?thesis by auto
  qed
qed

lemma generate_critic_absorbed_any:
  assumes "\<forall>req w. absorbed (fst (client req w))"
  shows "\<exists>ans model st'. generate_critic client m p so c st = (Inr (Some ans, model), st')"
proof (cases "map_of CRITIC_MODEL_LIST (lower m)")
  case None
  then show ?thesis by (simp add: generate_critic_unknown)
next
  case (Some model)
  have "absorbed (fst (client (critic_request model m p so c) (world st)))"
    using assms by blast
  then have "\<exists>ans. fst (generate_critic client m p so c st) = Inr (Some ans, model)"
    using Some by (rule generate_critic_absorbed)
  then show ?thesis
    by (metis prod.collapse)
qed

lemma collect_absorbed:
  assumes "\<forall>req w. absorbed (fst (client req w))"
  shows "\<exists>res st'. collect_critiques client ms p so c acc st = (Inr res, st')"
proof (induction ms arbitrary: acc st)
  case Nil
  then show ?case by simp
next
  case (Cons m ms)
  obtain ans model st1 where g: "generate_critic client m p so c st = (Inr (Some ans, model), st1)"
    using generate_critic_absorbed_any [OF assms] by blast
  show ?case using Cons [of "acc @ [(Some ans, model, m)]" st1]
    by (simp only: collect_Cons_text [OF g])
qed

lemma three_counts: "yes_count vs + no_count vs + unknown_count vs = length vs"
proof (induction vs)
  case Nil
  then show ?case by (simp add: yes_count_def no_count_def unknown_count_def)
next
  case (Cons v vs)
  then show ?case
    by (auto simp add: yes_count_length no_count_length unknown_count_def verdict_class_def)
qed

text \<open>What a report holds, entry by entry.\<close>

lemma report_entries:
  assumes r: "run client ms p so c st = Inr r"
  shows "length (rep_results r) = length ms"
    and "length (rep_verdicts r) = length ms"
    and "length (rep_rows r) = length ms"
    and "rep_total r = length ms"
    and "rep_yes r = yes_count (rep_verdicts r)"
    and "rep_no r = no_count (rep_verdicts r)"
    and "rep_class r = consensus (rep_verdicts r)"
    and "map (\<lambda>(critique, model, model_choice). model_choice) (rep_results r) = ms"
    and "map fst (rep_rows r) = ms"
    and "rep_state r = state_after client ms p so c st"
    and "i < length ms \<Longrightarrow> \<exists>ans model.
      nth_invocation client ms p so c st i =
        (Inr (Some ans, model), state_after client (take (Suc i) ms) p so c st)
      \<and> rep_results r ! i = (Some ans, model, ms ! i)
      \<and> rep_verdicts r ! i = summary_verdict ans
      \<and> rep_rows r ! i = (ms ! i, model, summary_verdict ans)"
proof -
  note c = run_Inr_collect [OF r]
  note e = run_of_collect [OF c]
  from e r have rr: "r = \<lparr>rep_results = rep_results r,
         rep_verdicts = map (\<lambda>(critique, model, model_choice). summary_verdict (the critique))
           (rep_results r),
         rep_rows = map (\<lambda>(critique, model, model_choice).
                       (model_choice, model, summary_verdict (the critique))) (rep_results r),
         rep_yes = yes_count
           (map (\<lambda>(critique, model, model_choice). summary_verdict (the critique)) (rep_results r)),
         rep_no = no_count
           (map (\<lambda>(critique, model, model_choice). summary_verdict (the critique)) (rep_results r)),
         rep_total = length (rep_results r),
         rep_class = consensus
           (map (\<lambda>(critique, model, model_choice). summary_verdict (the critique)) (rep_results r)),
         rep_state = rep_state r\<rparr>" by simp
  have v: "rep_verdicts r =
      map (\<lambda>(critique, model, model_choice). summary_verdict (the critique)) (rep_results r)"
    by (subst rr) simp
  have w: "rep_rows r = map (\<lambda>(critique, model, model_choice).
                       (model_choice, model, summary_verdict (the critique))) (rep_results r)"
    by (subst rr) simp
  note pr = collect_Inr_props [OF c]
  show l: "length (rep_results r) = length ms" using pr by simp
  show "length (rep_verdicts r) = length ms" using l by (simp add: v)
  show "length (rep_rows r) = length ms" using l by (simp add: w)
  show "rep_total r = length ms" using l by (subst rr) simp
  have "rep_yes r = yes_count
      (map (\<lambda>(critique, model, model_choice). summary_verdict (the critique)) (rep_results r))"
    by (subst rr) simp
  then show "rep_yes r = yes_count (rep_verdicts r)" by (simp only: v)
  have "rep_no r = no_count
      (map (\<lambda>(critique, model, model_choice). summary_verdict (the critique)) (rep_results r))"
    by (subst rr) simp
  then show "rep_no r = no_count (rep_verdicts r)" by (simp only: v)
  have "rep_class r = consensus
      (map (\<lambda>(critique, model, model_choice). summary_verdict (the critique)) (rep_results r))"
    by (subst rr) simp
  then show "rep_class r = consensus (rep_verdicts r)" by (simp only: v)
  show m: "map (\<lambda>(critique, model, model_choice). model_choice) (rep_results r) = ms"
    using pr by simp
  have "map fst (rep_rows r) = map (\<lambda>(critique, model, model_choice). model_choice) (rep_results r)"
    by (simp add: w split_def)
  with m show "map fst (rep_rows r) = ms" by simp
  show "rep_state r = state_after client ms p so c st"
    by (simp add: state_after_def c)
  assume i: "i < length ms"
  from collect_nth [OF c i] obtain ans model where n:
    "nth_invocation client ms p so c st i =
        (Inr (Some ans, model), state_after client (take (Suc i) ms) p so c st)"
    "rep_results r ! i = (Some ans, model, ms ! i)" by blast
  have "rep_verdicts r ! i = summary_verdict ans"
    using i l n(2) by (simp add: v)
  moreover have "rep_rows r ! i = (ms ! i, model, summary_verdict ans)"
    using i l n(2) by (simp add: w)
  ultimately show "\<exists>ans model.
      nth_invocation client ms p so c st i =
        (Inr (Some ans, model), state_after client (take (Suc i) ms) p so c st)
      \<and> rep_results r ! i = (Some ans, model, ms ! i)
      \<and> rep_verdicts r ! i = summary_verdict ans
      \<and> rep_rows r ! i = (ms ! i, model, summary_verdict ans)"
    using n by blast
qed

section \<open>Claims about a run\<close>

lemma run_aborts_on_None:
  assumes "generate_critic client m p so c st = (Inr (None, model), st')"
  shows "run client (m # ms) p so c st = Inl AttributeError"
  using collect_Cons_None [OF assms] by (rule run_escape_of_collect)

lemma run_aborts_on_escape:
  assumes "generate_critic client m p so c st = (Inl x, st')"
  shows "run client (m # ms) p so c st = Inl x"
  using collect_Cons_escape [OF assms] by (rule run_escape_of_collect)

lemma run_absorbed:
  assumes "\<forall>req w. absorbed (fst (client req w))"
  shows "\<exists>r. run client ms p so c st = Inr r"
proof -
  obtain res st' where "collect_critiques client ms p so c [] st = (Inr res, st')"
    using collect_absorbed [OF assms] by blast
  from run_of_collect [OF this] show ?thesis by blast
qed

lemma list2_eq:
  assumes "length xs = 2" and "xs ! 0 = a" and "xs ! Suc 0 = b"
  shows "xs = [a, b]"
proof (rule nth_equalityI)
  show "length xs = length [a, b]" using assms by simp
  fix i assume "i < length xs"
  then have "i = 0 \<or> i = Suc 0" using assms(1) by arith
  then show "xs ! i = [a, b] ! i" using assms by auto
qed

lemma list3_eq:
  assumes "length xs = 3" and "xs ! 0 = a" and "xs ! Suc 0 = b" and "xs ! 2 = c"
  shows "xs = [a, b, c]"
proof (rule nth_equalityI)
  show "length xs = length [a, b, c]" using assms by simp
  fix i assume "i < length xs"
  then have "i = 0 \<or> i = Suc 0 \<or> i = 2" using assms(1) by arith
  then show "xs ! i = [a, b, c] ! i" using assms by auto
qed

text \<open>
  Claim C5, as amended. Whenever a run over a list of identifiers yields a report, the
  report holds exactly one result and one verdict per identifier, and its approvals,
  rejections and unknown verdicts add up to the length of the list. In it the verdict of
  an unrecognised identifier is unknown; the verdict of an invocation whose transport call
  raised a caught exception is unknown when the description has no line break after its
  trailing whitespace is removed, and otherwise is the verdict read from the description.
  A run yields a report whenever every transport call either answers with a text or raises
  an instance of \<open>Exception\<close> that has a description: such failures, however many,
  do not abort the run.
\<close>

theorem run_counts:
  "(\<forall>r. run client models p so c st = Inr r \<longrightarrow>
      length (rep_results r) = length models
      \<and> length (rep_verdicts r) = length models
      \<and> rep_total r = length models
      \<and> rep_yes r + rep_no r + unknown_count (rep_verdicts r) = length models
      \<and> (\<forall>i < length models.
           map_of CRITIC_MODEL_LIST (lower (models ! i)) = None \<longrightarrow>
           verdict_class (rep_verdicts r ! i) = Unknown)
      \<and> (\<forall>i model e w'.
           i < length models
           \<and> map_of CRITIC_MODEL_LIST (lower (models ! i)) = Some model
           \<and> client (critic_request model (models ! i) p so c)
                (world (state_after client (take i models) p so c st))
                = (Inl (Exn True (Some e)), w') \<longrightarrow>
           verdict_class (rep_verdicts r ! i) =
             (if nl \<in> set (rstrip e) then verdict_class (summary_verdict e) else Unknown)))
   \<and> ((\<forall>req w. absorbed (fst (client req w))) \<longrightarrow>
        (\<exists>r. run client models p so c st = Inr r))"
proof (intro conjI allI impI)
  fix r assume r: "run client models p so c st = Inr r"
  note e = report_entries [OF r]
  show "length (rep_results r) = length models" by (rule e(1))
  show "length (rep_verdicts r) = length models" by (rule e(2))
  show "rep_total r = length models" by (rule e(4))
  show "rep_yes r + rep_no r + unknown_count (rep_verdicts r) = length models"
    using three_counts [of "rep_verdicts r"] by (simp add: e(5) e(6) e(2))
next
  fix r i
  assume r: "run client models p so c st = Inr r"
    and i: "i < length models"
    and u: "map_of CRITIC_MODEL_LIST (lower (models ! i)) = None"
  from report_entries(11) [OF r i] obtain ans model where n:
    "nth_invocation client models p so c st i =
        (Inr (Some ans, model), state_after client (take (Suc i) models) p so c st)"
    "rep_verdicts r ! i = summary_verdict ans" by blast
  have "fst (nth_invocation client models p so c st i) =
      Inr (Some (unknown_model_msg (models ! i)), models ! i)"
    using u by (simp add: nth_invocation_def generate_critic_unknown)
  with n(1) have "ans = unknown_model_msg (models ! i)" by simp
  with n(2) show "verdict_class (rep_verdicts r ! i) = Unknown"
    by (simp add: unknown_model_verdict)
next
  fix r i model e w'
  assume r: "run client models p so c st = Inr r"
    and a: "i < length models
           \<and> map_of CRITIC_MODEL_LIST (lower (models ! i)) = Some model
           \<and> client (critic_request model (models ! i) p so c)
                (world (state_after client (take i models) p so c st))
                = (Inl (Exn True (Some e)), w')"
  then have i: "i < length models" by simp
  from report_entries(11) [OF r i] obtain ans model' where n:
    "nth_invocation client models p so c st i =
        (Inr (Some ans, model'), state_after client (take (Suc i) models) p so c st)"
    "rep_verdicts r ! i = summary_verdict ans" by blast
  have "fst (nth_invocation client models p so c st i) =
      Inr (Some (error_msg (models ! i) e), model)"
    using a by (simp add: nth_invocation_def generate_critic_raised)
  with n(1) have ans: "ans = error_msg (models ! i) e" by simp
  have "nl \<notin> set (models ! i)" using a resolvable_no_nl by blast
  then have "verdict_class (summary_verdict (error_msg (models ! i) e)) =
    (if nl \<in> set (rstrip e) then verdict_class (summary_verdict e) else Unknown)"
    by (rule error_msg_verdict)
  with n(2) ans show "verdict_class (rep_verdicts r ! i) =
             (if nl \<in> set (rstrip e) then verdict_class (summary_verdict e) else Unknown)"
    by simp
next
  assume "\<forall>req w. absorbed (fst (client req w))"
  then show "\<exists>r. run client models p so c st = Inr r" by (rule run_absorbed)
qed

text \<open>
  Claim C5 as stated fails in its last part. In a run over one judge whose transport call
  raises, the failure is counted as an approval and the run is a unanimous approval. A run
  whose transport call is interrupted from the keyboard is aborted by that exception, and
  a run whose judge answers with no content is aborted by the \<open>AttributeError\<close> of
  printing the critique; neither yields a report.
\<close>

theorem failed_run_counts_approval:
  "map_sum id (map verdict_class \<circ> rep_verdicts)
       (run raising_client [''gemini''] ''p'' ''s'' ''c'' start) = Inr [Approve]
   \<and> map_sum id rep_yes (run raising_client [''gemini''] ''p'' ''s'' ''c'' start) = Inr 1
   \<and> map_sum id (unknown_count \<circ> rep_verdicts)
       (run raising_client [''gemini''] ''p'' ''s'' ''c'' start) = Inr 0
   \<and> map_sum id rep_class (run raising_client [''gemini''] ''p'' ''s'' ''c'' start)
       = Inr UnanimousApprove
   \<and> run interrupted_client [''gemini'', ''openai''] ''p'' ''s'' ''c'' start
       = Inl (Propagated (Exn False (Some [])))
   \<and> run silent_client [''gemini'', ''openai''] ''p'' ''s'' ''c'' start = Inl AttributeError"
proof -
  have s: "silent_client (critic_request ''google/gemini-2.5-pro'' ''gemini'' ''p'' ''s'' ''c'')
      (world start) = (Inr None, ())"
    by (simp add: silent_client_def)
  have "generate_critic silent_client ''gemini'' ''p'' ''s'' ''c'' start =
    (Inr (None, ''google/gemini-2.5-pro''),
     \<lparr>world = (), sent = sent start
        @ [critic_request ''google/gemini-2.5-pro'' ''gemini'' ''p'' ''s'' ''c'']\<rparr>)"
    using lookup_gemini s by (rule generate_critic_answered)
  then have sil: "run silent_client [''gemini'', ''openai''] ''p'' ''s'' ''c'' start
      = Inl AttributeError"
    by (rule run_aborts_on_None)
  have r: "raising_client (critic_request ''google/gemini-2.5-pro'' ''gemini'' ''p'' ''s'' ''c'')
      (world start) = (Inl (Exn True (Some ''upstream said:\<newline>Yes'')), ())"
    by (simp add: raising_client_def)
  have g: "generate_critic raising_client ''gemini'' ''p'' ''s'' ''c'' start =
    (Inr (Some (error_msg ''gemini'' ''upstream said:\<newline>Yes''), ''google/gemini-2.5-pro''),
     \<lparr>world = (), sent = sent start
        @ [critic_request ''google/gemini-2.5-pro'' ''gemini'' ''p'' ''s'' ''c'']\<rparr>)"
    using lookup_gemini r by (rule generate_critic_raised)
  have c: "collect_critiques raising_client [''gemini''] ''p'' ''s'' ''c'' [] start =
    (Inr [(Some (error_msg ''gemini'' ''upstream said:\<newline>Yes''), ''google/gemini-2.5-pro'',
           ''gemini'')],
     \<lparr>world = (), sent = sent start
        @ [critic_request ''google/gemini-2.5-pro'' ''gemini'' ''p'' ''s'' ''c'']\<rparr>)"
    by (simp only: collect_Cons_text [OF g]) simp
  have v: "summary_verdict (error_msg ''gemini'' ''upstream said:\<newline>Yes'') = ''Yes''"
    by code_simp
  have k: "map verdict_class [''Yes''] = [Approve] \<and> yes_count [''Yes''] = 1
    \<and> unknown_count [''Yes''] = 0 \<and> consensus [''Yes''] = UnanimousApprove"
    by code_simp
  have i: "interrupted_client (critic_request ''google/gemini-2.5-pro'' ''gemini'' ''p'' ''s'' ''c'')
      (world start) = (Inl (Exn False (Some [])), ())"
    by (simp add: interrupted_client_def)
  have "generate_critic interrupted_client ''gemini'' ''p'' ''s'' ''c'' start =
    (Inl (Propagated (Exn False (Some []))),
     \<lparr>world = (), sent = sent start
        @ [critic_request ''google/gemini-2.5-pro'' ''gemini'' ''p'' ''s'' ''c'']\<rparr>)"
    using lookup_gemini i by (rule generate_critic_propagated)
  then have "run interrupted_client [''gemini'', ''openai''] ''p'' ''s'' ''c'' start
       = Inl (Propagated (Exn False (Some [])))"
    by (rule run_aborts_on_escape)
  then show ?thesis
    using k sil by (simp add: run_of_collect [OF c] v)
qed

theorem run_counts_witness:
  "map_sum id (map verdict_class \<circ> rep_verdicts)
       (run raising_client [''claude'', ''gemini''] ''p'' ''s'' ''c'' start)
     = Inr [Unknown, Approve]
   \<and> map_sum id rep_total (run raising_client [''claude'', ''gemini''] ''p'' ''s'' ''c'' start)
     = Inr 2"
proof -
  let ?ms = "[''claude'', ''gemini'']"
  note t = run_counts [of raising_client ?ms "''p''" "''s''" "''c''" start]
  have "\<forall>req w. absorbed (fst (raising_client req w))"
    by (simp add: raising_client_def absorbed_def)
  from t [THEN conjunct2, THEN mp, OF this]
  obtain r where r: "run raising_client ?ms ''p'' ''s'' ''c'' start = Inr r" ..
  note u = t [THEN conjunct1, THEN spec, THEN mp, OF r]
  note u2 = u [THEN conjunct2]
  note u3 = u2 [THEN conjunct2]
  note u4 = u3 [THEN conjunct2]
  note u5 = u4 [THEN conjunct2]
  have l: "length (rep_verdicts r) = length ?ms" by (rule u2 [THEN conjunct1])
  have tot: "rep_total r = length ?ms" by (rule u3 [THEN conjunct1])
  have i0: "(0::nat) < length ?ms" by simp
  have "map_of CRITIC_MODEL_LIST (lower (?ms ! 0)) = None"
    using lookup_claude by simp
  with u5 [THEN conjunct1, THEN spec, THEN mp, OF i0]
  have a: "verdict_class (rep_verdicts r ! 0) = Unknown" by (rule mp)
  have rc: "raising_client (critic_request ''google/gemini-2.5-pro'' (?ms ! Suc 0) ''p'' ''s'' ''c'')
      (world (state_after raising_client (take (Suc 0) ?ms) ''p'' ''s'' ''c'' start))
        = (Inl (Exn True (Some ''upstream said:\<newline>Yes'')), ())"
    by (simp add: raising_client_def)
  have "Suc 0 < length ?ms
    \<and> map_of CRITIC_MODEL_LIST (lower (?ms ! Suc 0)) = Some ''google/gemini-2.5-pro''
    \<and> raising_client (critic_request ''google/gemini-2.5-pro'' (?ms ! Suc 0) ''p'' ''s'' ''c'')
      (world (state_after raising_client (take (Suc 0) ?ms) ''p'' ''s'' ''c'' start))
        = (Inl (Exn True (Some ''upstream said:\<newline>Yes'')), ())"
    using lookup_gemini rc by simp
  with u5 [THEN conjunct2, THEN spec, THEN spec, THEN spec, THEN spec]
  have b0: "verdict_class (rep_verdicts r ! Suc 0) =
     (if nl \<in> set (rstrip ''upstream said:\<newline>Yes'')
            then verdict_class (summary_verdict ''upstream said:\<newline>Yes'') else Unknown)"
    by (rule mp)
  have v: "(if nl \<in> set (rstrip ''upstream said:\<newline>Yes'')
            then verdict_class (summary_verdict ''upstream said:\<newline>Yes'') else Unknown) = Approve"
    by code_simp
  have b: "verdict_class (rep_verdicts r ! Suc 0) = Approve"
    using b0 unfolding v .
  have "map verdict_class (rep_verdicts r) = [Unknown, Approve]"
  proof (rule list2_eq)
    show "length (map verdict_class (rep_verdicts r)) = 2" using l by simp
    show "map verdict_class (rep_verdicts r) ! 0 = Unknown" using l a by simp
    show "map verdict_class (rep_verdicts r) ! Suc 0 = Approve" using l b by simp
  qed
  with r tot show ?thesis by simp
qed

text \<open>
  Claim C8. Judges are invoked one at a time in the order of the caller's list, each in
  the state left by the one before, and the report keeps that order: the i-th result, the
  i-th verdict and the i-th summary row all belong to the i-th identifier and hold what
  its invocation returned.
\<close>

theorem report_order:
  assumes "run client models p so c st = Inr r"
  shows "map (\<lambda>(critique, model, model_choice). model_choice) (rep_results r) = models
   \<and> map fst (rep_rows r) = models
   \<and> length (rep_verdicts r) = length models
   \<and> state_after client (take 0 models) p so c st = st
   \<and> rep_state r = state_after client models p so c st
   \<and> (\<forall>i < length models. \<exists>ans model.
        fst (nth_invocation client models p so c st i) = Inr (Some ans, model)
        \<and> rep_results r ! i = (Some ans, model, models ! i)
        \<and> rep_verdicts r ! i = summary_verdict ans
        \<and> rep_rows r ! i = (models ! i, model, summary_verdict ans)
        \<and> state_after client (take (Suc i) models) p so c st =
            snd (nth_invocation client models p so c st i))"
proof (intro conjI allI impI)
  note e = report_entries [OF assms]
  show "map (\<lambda>(critique, model, model_choice). model_choice) (rep_results r) = models"
    by (rule e(8))
  show "map fst (rep_rows r) = models" by (rule e(9))
  show "length (rep_verdicts r) = length models" by (rule e(2))
  show "state_after client (take 0 models) p so c st = st" by (simp add: state_after_def)
  show "rep_state r = state_after client models p so c st" by (rule e(10))
next
  fix i assume i: "i < length models"
  from report_entries(11) [OF assms i] obtain ans model where n:
    "nth_invocation client models p so c st i =
        (Inr (Some ans, model), state_after client (take (Suc i) models) p so c st)"
    "rep_results r ! i = (Some ans, model, models ! i)"
    "rep_verdicts r ! i = summary_verdict ans"
    "rep_rows r ! i = (models ! i, model, summary_verdict ans)" by blast
  then show "\<exists>ans model.
        fst (nth_invocation client models p so c st i) = Inr (Some ans, model)
        \<and> rep_results r ! i = (Some ans, model, models ! i)
        \<and> rep_verdicts r ! i = summary_verdict ans
        \<and> rep_rows r ! i = (models ! i, model, summary_verdict ans)
        \<and> state_after client (take (Suc i) models) p so c st =
            snd (nth_invocation client models p so c st i)"
    by simp
qed

theorem report_order_witness:
  "map_sum id rep_results
       (run approving_client [''gemini'', ''claude'', ''openai''] ''p'' ''s'' ''c'' start)
     = Inr [(Some ''Yes'', ''google/gemini-2.5-pro'', ''gemini''),
            (Some (''Error: Unknown model '' @ [CHR 0x27] @ ''claude'' @ [CHR 0x27]),
             ''claude'', ''claude''),
            (Some ''Yes'', ''openai/gpt-4.1'', ''openai'')]
   \<and> map_sum id (map fst \<circ> rep_rows)
       (run approving_client [''gemini'', ''claude'', ''openai''] ''p'' ''s'' ''c'' start)
     = Inr [''gemini'', ''claude'', ''openai'']"
proof -
  let ?ms = "[''gemini'', ''claude'', ''openai'']"
  have "\<forall>req w. absorbed (fst (approving_client req w))"
    by (simp add: approving_client_def absorbed_def)
  then have "\<exists>r. run approving_client ?ms ''p'' ''s'' ''c'' start = Inr r"
    by (rule run_absorbed)
  then obtain r where r: "run approving_client ?ms ''p'' ''s'' ''c'' start = Inr r" ..
  note t = report_order [OF r]
  note q = t [THEN conjunct2, THEN conjunct2, THEN conjunct2, THEN conjunct2, THEN conjunct2,
      THEN spec, THEN mp]
  have n0: "fst (nth_invocation approving_client ?ms ''p'' ''s'' ''c'' start 0)
      = Inr (Some ''Yes'', ''google/gemini-2.5-pro'')"
    by code_simp
  have n1: "fst (nth_invocation approving_client ?ms ''p'' ''s'' ''c'' start (Suc 0))
      = Inr (Some (''Error: Unknown model '' @ [CHR 0x27] @ ''claude'' @ [CHR 0x27]), ''claude'')"
    by code_simp
  have n2: "fst (nth_invocation approving_client ?ms ''p'' ''s'' ''c'' start 2)
      = Inr (Some ''Yes'', ''openai/gpt-4.1'')"
    by code_simp
  have "(0::nat) < length ?ms" by simp
  from q [OF this] have "rep_results r ! 0 = (Some ''Yes'', ''google/gemini-2.5-pro'', ?ms ! 0)"
    unfolding n0 by (elim exE conjE) simp
  then have r0: "rep_results r ! 0 = (Some ''Yes'', ''google/gemini-2.5-pro'', ''gemini'')"
    by simp
  have "Suc 0 < length ?ms" by simp
  from q [OF this] have "rep_results r ! Suc 0 =
      (Some (''Error: Unknown model '' @ [CHR 0x27] @ ''claude'' @ [CHR 0x27]), ''claude'',
       ?ms ! Suc 0)"
    unfolding n1 by (elim exE conjE) simp
  then have r1: "rep_results r ! Suc 0 =
      (Some (''Error: Unknown model '' @ [CHR 0x27] @ ''claude'' @ [CHR 0x27]), ''claude'',
       ''claude'')"
    by simp
  have "(2::nat) < length ?ms" by simp
  from q [OF this] have "rep_results r ! 2 = (Some ''Yes'', ''openai/gpt-4.1'', ?ms ! 2)"
    unfolding n2 by (elim exE conjE) simp
  then have r2: "rep_results r ! 2 = (Some ''Yes'', ''openai/gpt-4.1'', ''openai'')"
    by simp
  have "length (map (\<lambda>(critique, model, model_choice). model_choice) (rep_results r))
      = length ?ms"
    by (simp only: t [THEN conjunct1])
  then have l: "length (rep_results r) = 3" by simp
  have "rep_results r = [(Some ''Yes'', ''google/gemini-2.5-pro'', ''gemini''),
            (Some (''Error: Unknown model '' @ [CHR 0x27] @ ''claude'' @ [CHR 0x27]),
             ''claude'', ''claude''),
            (Some ''Yes'', ''openai/gpt-4.1'', ''openai'')]"
    using l r0 r1 r2 by (rule list3_eq)
  moreover have "map fst (rep_rows r) = ?ms" by (rule t [THEN conjunct2, THEN conjunct1])
  ultimately show ?thesis using r by simp
qed

text \<open>
  Claim C10. A run over no judges at all is classified as a unanimous approval, with all
  counts zero.
\<close>

theorem empty_run_unanimous_approve:
  "consensus [] = UnanimousApprove
   \<and> yes_count [] = 0 \<and> no_count [] = 0
   \<and> unknown_count [] = 0
   \<and> run client [] prompt strategy_output code st =
       Inr \<lparr>rep_results = [], rep_verdicts = [], rep_rows = [], rep_yes = 0, rep_no = 0,
            rep_total = 0, rep_class = UnanimousApprove, rep_state = st\<rparr>"
  by (simp add: consensus_def yes_count_def no_count_def unknown_count_def run_def)

end
